theory Spec2Isabelle
  imports Complex_Main "HOL-Library.Log_Nat"
begin

section \<open>The C++ \<^verbatim>\<open>double\<close>: IEEE 754 binary64, round to nearest, ties to even\<close>

text \<open>
  \<^verbatim>\<open>toFract\<close> computes in \<^verbatim>\<open>double\<close> and every claim about it depends on what the
  floating-point operations return, so the type is modelled bit-exactly as far as its values
  go: a finite double is the real number it denotes (\<open>Fin 0\<close> is \<open>+0.0\<close>, \<open>NegZero\<close> is
  \<open>-0.0\<close>), and there are the two infinities and one NaN. Every arithmetic operation is the
  exact real operation followed by \<open>rnd\<close>, the rounding of binary64 (53 significant bits,
  exponent range of the normal numbers \<open>-1022 .. 1023\<close>, gradual underflow, overflow to
  infinity). Each operation is evaluated in \<^verbatim>\<open>double\<close> as written in the source (no fused
  multiply-add, no extended precision).
\<close>

datatype double = Fin real | NegZero | PInf | NInf | NaN

definition pow2 :: "int \<Rightarrow> real" where
  "pow2 e = (if 0 \<le> e then 2 ^ nat e else 1 / 2 ^ nat (- e))"

text \<open>\<open>ilog2 r\<close> is \<open>\<lfloor>log\<^sub>2 r\<rfloor>\<close> for \<open>r > 0\<close>, computed on integers.\<close>

definition ilog2 :: "real \<Rightarrow> int" where
  "ilog2 r = (if 1 \<le> r then bitlen \<lfloor>r\<rfloor> - 1 else - bitlen (\<lceil>1 / r\<rceil> - 1))"

definition round_even :: "real \<Rightarrow> int" where
  "round_even x =
     (let f = \<lfloor>x\<rfloor>; d = x - of_int f
      in if d < 1 / 2 then f else if 1 / 2 < d then f + 1 else if even f then f else f + 1)"

text \<open>The spacing of the doubles around \<open>r\<close>: \<open>2 ^ (e - 52)\<close> in the binade
  \<open>2 ^ e \<le> \<bar>r\<bar> < 2 ^ (e + 1)\<close>, and \<open>2 ^ - 1074\<close> for the subnormal numbers.\<close>

definition exponent :: "real \<Rightarrow> int" where
  "exponent r = max (ilog2 \<bar>r\<bar>) (- 1022)"

definition quantum :: "real \<Rightarrow> real" where
  "quantum r = pow2 (exponent r - 52)"

definition rnd_val :: "real \<Rightarrow> real" where
  "rnd_val r = of_int (round_even (r / quantum r)) * quantum r"

definition overflow_threshold :: real where
  "overflow_threshold = 2 ^ 1024"

definition rnd :: "real \<Rightarrow> double" where
  "rnd r =
     (let v = rnd_val r
      in if overflow_threshold \<le> v then PInf
         else if v \<le> - overflow_threshold then NInf
         else if v = 0 then (if r < 0 then NegZero else Fin 0)
         else Fin v)"

fun is_zero :: "double \<Rightarrow> bool" where
  "is_zero (Fin r) = (r = 0)"
| "is_zero NegZero = True"
| "is_zero _ = False"

fun is_inf :: "double \<Rightarrow> bool" where
  "is_inf PInf = True"
| "is_inf NInf = True"
| "is_inf _ = False"

fun sign_bit :: "double \<Rightarrow> bool" where
  "sign_bit (Fin r) = (r < 0)"
| "sign_bit NegZero = True"
| "sign_bit NInf = True"
| "sign_bit _ = False"

fun fin_val :: "double \<Rightarrow> real" where
  "fin_val (Fin r) = r"
| "fin_val _ = 0"

definition signed_zero :: "bool \<Rightarrow> double" where
  "signed_zero negative = (if negative then NegZero else Fin 0)"

definition signed_inf :: "bool \<Rightarrow> double" where
  "signed_inf negative = (if negative then NInf else PInf)"

fun dneg :: "double \<Rightarrow> double" where
  "dneg (Fin r) = (if r = 0 then NegZero else Fin (- r))"
| "dneg NegZero = Fin 0"
| "dneg PInf = NInf"
| "dneg NInf = PInf"
| "dneg NaN = NaN"

fun dabs :: "double \<Rightarrow> double" where
  "dabs (Fin r) = Fin \<bar>r\<bar>"
| "dabs NegZero = Fin 0"
| "dabs PInf = PInf"
| "dabs NInf = PInf"
| "dabs NaN = NaN"

definition dadd :: "double \<Rightarrow> double \<Rightarrow> double" where
  "dadd x y =
     (if x = NaN \<or> y = NaN then NaN
      else if is_inf x \<or> is_inf y
        then (if is_inf x \<and> is_inf y \<and> x \<noteq> y then NaN else if is_inf x then x else y)
      else if is_zero x \<and> is_zero y
        then (if x = NegZero \<and> y = NegZero then NegZero else Fin 0)
      else if fin_val x + fin_val y = 0 then Fin 0
      else rnd (fin_val x + fin_val y))"

definition dsub :: "double \<Rightarrow> double \<Rightarrow> double" where
  "dsub x y = dadd x (dneg y)"

definition dmul :: "double \<Rightarrow> double \<Rightarrow> double" where
  "dmul x y =
     (if x = NaN \<or> y = NaN then NaN
      else if (is_zero x \<and> is_inf y) \<or> (is_inf x \<and> is_zero y) then NaN
      else if is_inf x \<or> is_inf y then signed_inf (sign_bit x \<noteq> sign_bit y)
      else if is_zero x \<or> is_zero y then signed_zero (sign_bit x \<noteq> sign_bit y)
      else rnd (fin_val x * fin_val y))"

definition ddiv :: "double \<Rightarrow> double \<Rightarrow> double" where
  "ddiv x y =
     (if x = NaN \<or> y = NaN then NaN
      else if (is_inf x \<and> is_inf y) \<or> (is_zero x \<and> is_zero y) then NaN
      else if is_inf x \<or> is_zero y then signed_inf (sign_bit x \<noteq> sign_bit y)
      else if is_inf y \<or> is_zero x then signed_zero (sign_bit x \<noteq> sign_bit y)
      else rnd (fin_val x / fin_val y))"

text \<open>The comparisons: every comparison with a NaN is false, and \<open>-0.0 = +0.0\<close>.\<close>

definition dlt :: "double \<Rightarrow> double \<Rightarrow> bool" where
  "dlt x y =
     (x \<noteq> NaN \<and> y \<noteq> NaN \<and>
      (if x = PInf \<or> y = NInf then False
       else if x = NInf \<or> y = PInf then True
       else fin_val x < fin_val y))"

definition dle :: "double \<Rightarrow> double \<Rightarrow> bool" where
  "dle x y =
     (x \<noteq> NaN \<and> y \<noteq> NaN \<and>
      (if x = NInf \<or> y = PInf then True
       else if x = PInf \<or> y = NInf then False
       else fin_val x \<le> fin_val y))"

definition dgt :: "double \<Rightarrow> double \<Rightarrow> bool" where
  "dgt x y = dlt y x"

definition dge :: "double \<Rightarrow> double \<Rightarrow> bool" where
  "dge x y = dle y x"

text \<open>\<^verbatim>\<open>double(i)\<close> for an integer \<open>i\<close>: the nearest double.\<close>

definition dbl_of_int :: "int \<Rightarrow> double" where
  "dbl_of_int i = rnd (of_int i)"

definition trunc :: "real \<Rightarrow> int" where
  "trunc r = (if 0 \<le> r then \<lfloor>r\<rfloor> else \<lceil>r\<rceil>)"


section \<open>The integer type \<^verbatim>\<open>int_type\<close>\<close>

text \<open>
  \<^verbatim>\<open>toFract\<close> is a template over \<^verbatim>\<open>int_type\<close>; the test file instantiates it with
  \<^verbatim>\<open>int\<close>, \<^verbatim>\<open>long\<close>, \<^verbatim>\<open>int32_t\<close> and \<^verbatim>\<open>int64_t\<close>, that is with a signed type of 32 or of 64
  bits. Signed overflow is undefined in C++: the model makes it the outcome
  \<open>SignedOverflow\<close>. The conversion \<^verbatim>\<open>int_type(x)\<close> of a double truncates towards zero; where
  the truncated number does not fit, C++ leaves the result undefined and the hardware returns
  some number of the type, which the model takes from the platform: the most negative number
  (the "integer indefinite" of x86), or the nearest bound of the type, and 0 for a NaN
  (saturation, as on ARM). \<^verbatim>\<open>assert\<close> is compiled in or out (NDEBUG): \<open>assertions\<close>
  says which.
\<close>

datatype int_type = Int32 | Int64

fun bits :: "int_type \<Rightarrow> nat" where
  "bits Int32 = 32"
| "bits Int64 = 64"

definition MaxValue :: "int_type \<Rightarrow> int" where
  "MaxValue T = 2 ^ (bits T - 1) - 1"

definition MinValue :: "int_type \<Rightarrow> int" where
  "MinValue T = - (2 ^ (bits T - 1))"

definition in_range :: "int_type \<Rightarrow> int \<Rightarrow> bool" where
  "in_range T i = (MinValue T \<le> i \<and> i \<le> MaxValue T)"

datatype conversion = Indefinite | Saturating

record platform =
  assertions :: bool
  out_of_range :: conversion

datatype error = InvalidArgument | BadRational | SignedOverflow | AssertionFailed

definition unrepresentable :: "platform \<Rightarrow> int_type \<Rightarrow> double \<Rightarrow> int" where
  "unrepresentable cfg T x =
     (case out_of_range cfg of
        Indefinite \<Rightarrow> MinValue T
      | Saturating \<Rightarrow> (if x = NaN then 0 else if sign_bit x then MinValue T else MaxValue T))"

definition to_int_type :: "platform \<Rightarrow> int_type \<Rightarrow> double \<Rightarrow> int" where
  "to_int_type cfg T x =
     (case x of
        Fin r \<Rightarrow> if in_range T (trunc r) then trunc r else unrepresentable cfg T x
      | NegZero \<Rightarrow> 0
      | _ \<Rightarrow> unrepresentable cfg T x)"

definition checked :: "int_type \<Rightarrow> int \<Rightarrow> error + int" where
  "checked T i = (if in_range T i then Inr i else Inl SignedOverflow)"

definition and_then :: "error + 'a \<Rightarrow> ('a \<Rightarrow> error + 'b) \<Rightarrow> error + 'b" where
  "and_then r f = (case r of Inl e \<Rightarrow> Inl e | Inr v \<Rightarrow> f v)"

text \<open>\<^verbatim>\<open>a * b + c\<close> and \<^verbatim>\<open>a + b\<close> in \<^verbatim>\<open>int_type\<close>.\<close>

definition mul_add :: "int_type \<Rightarrow> int \<Rightarrow> int \<Rightarrow> int \<Rightarrow> error + int" where
  "mul_add T a b c = and_then (checked T (a * b)) (\<lambda>p. checked T (p + c))"


section \<open>\<^verbatim>\<open>Fraction\<close>: \<^verbatim>\<open>boost::rational\<close>\<close>

text \<open>\<^verbatim>\<open>Fraction<int_type>\<close> is \<^verbatim>\<open>boost::rational<int_type>\<close>: a numerator and a
  denominator of \<^verbatim>\<open>int_type\<close>.\<close>

record fraction =
  numerator :: int
  denominator :: int

text \<open>Modelled from the spec: the constructor of \<^verbatim>\<open>boost::rational\<close>, a library type whose
  code is not in the repository. The claim on lowest terms describes it as normalizing on
  every construction: it throws \<^verbatim>\<open>bad_rational\<close> for a zero denominator, stores \<open>0/1\<close> for a
  zero numerator, divides both parts by their greatest common divisor and makes the
  denominator positive.\<close>

definition Fraction :: "int_type \<Rightarrow> int \<Rightarrow> int \<Rightarrow> error + fraction" where
  "Fraction T n d =
     (if d = 0 then Inl BadRational
      else if n = 0 then Inr \<lparr>numerator = 0, denominator = 1\<rparr>
      else let g = gcd n d; n' = n div g; d' = d div g
           in if d' < - MaxValue T then Inl BadRational
              else if d' < 0
                then and_then (checked T (- n')) (\<lambda>m. Inr \<lparr>numerator = m, denominator = - d'\<rparr>)
              else Inr \<lparr>numerator = n', denominator = d'\<rparr>)"

text \<open>Modelled from the spec: \<^verbatim>\<open>operator+=\<close> of \<^verbatim>\<open>boost::rational\<close> for an integer, missing
  from the repository like the constructor; the spec's \<open>plusInteger\<close>, which adds \<open>k\<close> to the
  value by \<open>numerator += k * denominator\<close>.\<close>

definition plus_int :: "int_type \<Rightarrow> fraction \<Rightarrow> int \<Rightarrow> error + fraction" where
  "plus_int T f i =
     and_then (mul_add T i (denominator f) (numerator f))
       (\<lambda>m. Inr \<lparr>numerator = m, denominator = denominator f\<rparr>)"

definition toFloat :: "fraction \<Rightarrow> double" where
  "toFloat fr = ddiv (dbl_of_int (numerator fr)) (dbl_of_int (denominator fr))"


section \<open>\<^verbatim>\<open>toFract\<close>\<close>

record bounds =
  low :: fraction
  high :: fraction

definition testLow :: "double \<Rightarrow> bounds \<Rightarrow> double" where
  "testLow val b =
     dsub (dmul (dbl_of_int (denominator (low b))) val) (dbl_of_int (numerator (low b)))"

definition testHigh :: "double \<Rightarrow> bounds \<Rightarrow> double" where
  "testHigh val b =
     dsub (dbl_of_int (numerator (high b))) (dmul (dbl_of_int (denominator (high b))) val)"

definition x1 :: "double \<Rightarrow> bounds \<Rightarrow> double" where
  "x1 val b = ddiv (testHigh val b) (testLow val b)"

definition x2 :: "double \<Rightarrow> bounds \<Rightarrow> double" where
  "x2 val b = ddiv (testLow val b) (testHigh val b)"

text \<open>The two \<^verbatim>\<open>assert\<close>s at the head of the loop body, repeated at its end.\<close>

definition asserts_hold :: "platform \<Rightarrow> double \<Rightarrow> bounds \<Rightarrow> bool" where
  "asserts_hold cfg val b =
     (if assertions cfg then dle (toFloat (low b)) val \<and> dge (toFloat (high b)) val else True)"

text \<open>The safety checks of the two branches, in the order the source adds the terms.\<close>

definition out_of_bounds_x1 :: "int_type \<Rightarrow> double \<Rightarrow> bounds \<Rightarrow> bool" where
  "out_of_bounds_x1 T val b =
     dge (dadd (dmul (dadd (x1 val b) (Fin 1)) (dbl_of_int (denominator (low b))))
               (dbl_of_int (denominator (high b))))
         (dbl_of_int (MaxValue T))"

definition out_of_bounds_x2 :: "int_type \<Rightarrow> double \<Rightarrow> bounds \<Rightarrow> bool" where
  "out_of_bounds_x2 T val b =
     dge (dadd (dbl_of_int (denominator (low b)))
               (dmul (dadd (x2 val b) (Fin 1)) (dbl_of_int (denominator (high b)))))
         (dbl_of_int (MaxValue T))"

text \<open>The branch \<^verbatim>\<open>x1 > x2\<close>: \<open>h = n * low + high\<close>, \<open>l = h + low\<close>; \<open>low\<close> is constructed first.\<close>

definition step_x1 :: "int_type \<Rightarrow> int \<Rightarrow> bounds \<Rightarrow> error + bounds" where
  "step_x1 T n b =
     and_then (mul_add T n (numerator (low b)) (numerator (high b))) (\<lambda>h_num.
     and_then (mul_add T n (denominator (low b)) (denominator (high b))) (\<lambda>h_denom.
     and_then (checked T (h_num + numerator (low b))) (\<lambda>l_num.
     and_then (checked T (h_denom + denominator (low b))) (\<lambda>l_denom.
     and_then (Fraction T l_num l_denom) (\<lambda>l.
     and_then (Fraction T h_num h_denom) (\<lambda>h.
     Inr \<lparr>low = l, high = h\<rparr>))))))"

text \<open>The other branch: \<open>l = low + n * high\<close>, \<open>h = l + high\<close>; \<open>high\<close> is constructed first.\<close>

definition step_x2 :: "int_type \<Rightarrow> int \<Rightarrow> bounds \<Rightarrow> error + bounds" where
  "step_x2 T n b =
     and_then (mul_add T n (numerator (high b)) (numerator (low b))) (\<lambda>l_num.
     and_then (mul_add T n (denominator (high b)) (denominator (low b))) (\<lambda>l_denom.
     and_then (checked T (l_num + numerator (high b))) (\<lambda>h_num.
     and_then (checked T (l_denom + denominator (high b))) (\<lambda>h_denom.
     and_then (Fraction T h_num h_denom) (\<lambda>h.
     and_then (Fraction T l_num l_denom) (\<lambda>l.
     Inr \<lparr>low = l, high = h\<rparr>))))))"

text \<open>
  One pass through the body of \<^verbatim>\<open>for (;;)\<close>. The source leaves the loop by one of four
  \<^verbatim>\<open>break\<close>s, which all continue at the same place; \<open>Break\<close> records which one it was
  (the two precision tests, or one of the two safety checks) and the bounds at that moment.
\<close>

datatype exit_reason = HighConverged | LowConverged | OverflowStopped

datatype flow = Break exit_reason bounds | Continue bounds | Abort error

definition after_step :: "platform \<Rightarrow> double \<Rightarrow> error + bounds \<Rightarrow> flow" where
  "after_step cfg val r =
     (case r of
        Inl e \<Rightarrow> Abort e
      | Inr b' \<Rightarrow> if asserts_hold cfg val b' then Continue b' else Abort AssertionFailed)"

definition loop_body :: "platform \<Rightarrow> int_type \<Rightarrow> double \<Rightarrow> double \<Rightarrow> bounds \<Rightarrow> flow" where
  "loop_body cfg T val Precision b =
     (if \<not> asserts_hold cfg val b then Abort AssertionFailed
      else if dlt (testHigh val b) Precision then Break HighConverged b
      else if dlt (testLow val b) Precision then Break LowConverged (b\<lparr>high := low b\<rparr>)
      else if dgt (x1 val b) (x2 val b)
        then (if out_of_bounds_x1 T val b then Break OverflowStopped b
              else after_step cfg val (step_x1 T (to_int_type cfg T (x1 val b)) b))
      else (if out_of_bounds_x2 T val b then Break OverflowStopped b
            else after_step cfg val (step_x2 T (to_int_type cfg T (x2 val b)) b)))"

partial_function (option) loop ::
  "platform \<Rightarrow> int_type \<Rightarrow> double \<Rightarrow> double \<Rightarrow> bounds \<Rightarrow> (error + exit_reason \<times> bounds) option"
where
  "loop cfg T val Precision b =
     (case loop_body cfg T val Precision b of
        Break why b' \<Rightarrow> Some (Inr (why, b'))
      | Continue b' \<Rightarrow> loop cfg T val Precision b'
      | Abort e \<Rightarrow> Some (Inl e))"

definition initial :: bounds where
  "initial = \<lparr>low = \<lparr>numerator = 0, denominator = 1\<rparr>, high = \<lparr>numerator = 1, denominator = 1\<rparr>\<rparr>"

definition intPart :: "platform \<Rightarrow> int_type \<Rightarrow> double \<Rightarrow> int" where
  "intPart cfg T val = to_int_type cfg T val"

text \<open>\<^verbatim>\<open>val -= double(intPart)\<close>: the value the loop works on.\<close>

definition remainder :: "platform \<Rightarrow> int_type \<Rightarrow> double \<Rightarrow> double" where
  "remainder cfg T val = dsub val (dbl_of_int (intPart cfg T val))"

text \<open>The search: the loop from \<open>0/1\<close> and \<open>1/1\<close>, unless the range check throws.\<close>

definition search ::
  "platform \<Rightarrow> int_type \<Rightarrow> double \<Rightarrow> double \<Rightarrow> (error + exit_reason \<times> bounds) option" where
  "search cfg T val Precision =
     (if dgt (dabs (remainder cfg T val)) (Fin 1) then Some (Inl InvalidArgument)
      else loop cfg T (remainder cfg T val) Precision initial)"

text \<open>
  \<^verbatim>\<open>toFract<int_type>(val, Precision)\<close>. \<open>None\<close> is a loop that does not end;
  \<open>Some (Inl e)\<close> is the exception (or the undefined behaviour, or the failed assertion)
  \<open>e\<close>; \<open>Some (Inr f)\<close> is the fraction returned, \<^verbatim>\<open>high += intPart\<close>. The lines
  under \<^verbatim>\<open>DebugReporting\<close> only print.
\<close>

definition toFract :: "platform \<Rightarrow> int_type \<Rightarrow> double \<Rightarrow> double \<Rightarrow> (error + fraction) option" where
  "toFract cfg T val Precision =
     (case search cfg T val Precision of
        None \<Rightarrow> None
      | Some (Inl e) \<Rightarrow> Some (Inl e)
      | Some (Inr (why, b)) \<Rightarrow> Some (plus_int T (high b) (intPart cfg T val)))"


section \<open>Notions the properties are stated with\<close>

text \<open>A real number is a double when rounding leaves it as it is and it is below the overflow
  threshold.\<close>

definition is_double :: "real \<Rightarrow> bool" where
  "is_double r = (rnd_val r = r \<and> \<bar>r\<bar> < overflow_threshold)"

definition finite_d :: "double \<Rightarrow> bool" where
  "finite_d x = (x \<noteq> NaN \<and> \<not> is_inf x)"

text \<open>\<open>visits cfg T val Precision b\<close>: the loop, entered with \<open>low = 0/1\<close> and \<open>high = 1/1\<close>, comes to
  the head of its body with the bounds \<open>b\<close>.\<close>

inductive visits :: "platform \<Rightarrow> int_type \<Rightarrow> double \<Rightarrow> double \<Rightarrow> bounds \<Rightarrow> bool"
  for cfg T val Precision
where
  start: "visits cfg T val Precision initial"
| pass: "visits cfg T val Precision b \<Longrightarrow> loop_body cfg T val Precision b = Continue b'
    \<Longrightarrow> visits cfg T val Precision b'"

text \<open>The loop, and the search, given up after \<open>k\<close> passes through the body: \<open>None\<close> when
  \<open>k\<close> passes do not end the loop.\<close>

fun loop_within ::
  "nat \<Rightarrow> platform \<Rightarrow> int_type \<Rightarrow> double \<Rightarrow> double \<Rightarrow> bounds
    \<Rightarrow> (error + exit_reason \<times> bounds) option"
where
  "loop_within 0 cfg T val Precision b = None"
| "loop_within (Suc k) cfg T val Precision b =
     (case loop_body cfg T val Precision b of
        Break why b' \<Rightarrow> Some (Inr (why, b'))
      | Continue b' \<Rightarrow> loop_within k cfg T val Precision b'
      | Abort e \<Rightarrow> Some (Inl e))"

definition search_within ::
  "nat \<Rightarrow> platform \<Rightarrow> int_type \<Rightarrow> double \<Rightarrow> double
    \<Rightarrow> (error + exit_reason \<times> bounds) option"
where
  "search_within k cfg T val Precision =
     (if dgt (dabs (remainder cfg T val)) (Fin 1) then Some (Inl InvalidArgument)
      else loop_within k cfg T (remainder cfg T val) Precision initial)"

text \<open>A finite double of magnitude at most \<open>B\<close>; a double that is at least \<open>M\<close>.\<close>

definition bounded :: "real \<Rightarrow> double \<Rightarrow> bool" where
  "bounded B x = (finite_d x \<and> \<bar>fin_val x\<bar> \<le> B)"

definition at_least :: "real \<Rightarrow> double \<Rightarrow> bool" where
  "at_least M x = (x = PInf \<or> (\<exists>a. x = Fin a \<and> M \<le> a))"

text \<open>
  What holds of the bounds at the head of every pass when the precision is positive: the four
  numbers are numbers of \<^verbatim>\<open>int_type\<close>, the denominators are positive, and
  \<open>high.numerator * low.denominator - low.numerator * high.denominator = 1\<close> (the two bounds are
  neighbours in the Stern-Brocot tree).
\<close>

definition neighbours :: "int_type \<Rightarrow> bounds \<Rightarrow> bool" where
  "neighbours T b =
     (in_range T (numerator (low b)) \<and> in_range T (denominator (low b)) \<and>
      in_range T (numerator (high b)) \<and> in_range T (denominator (high b)) \<and>
      1 \<le> denominator (low b) \<and> 1 \<le> denominator (high b) \<and>
      numerator (high b) * denominator (low b) - numerator (low b) * denominator (high b) = 1)"

text \<open>The number a fraction denotes.\<close>

definition frac_val :: "fraction \<Rightarrow> real" where
  "frac_val f = of_int (numerator f) / of_int (denominator f)"

text \<open>A fraction in lowest terms with a positive denominator.\<close>

definition normalized :: "fraction \<Rightarrow> bool" where
  "normalized f = (1 \<le> denominator f \<and> gcd (numerator f) (denominator f) = 1)"


section \<open>Properties of the rounding\<close>

subsection \<open>Powers of two\<close>

lemma pow2_powi: "pow2 e = 2 powi e"
  by (simp add: pow2_def power_int_def inverse_eq_divide power_one_over)

lemma pow2_pos: "0 < pow2 e"
  by (simp add: pow2_powi)

lemma pow2_add: "pow2 (a + b) = pow2 a * pow2 b"
  by (simp add: pow2_powi power_int_add)

lemma pow2_less_iff: "pow2 a < pow2 b \<longleftrightarrow> a < b"
proof
  assume "pow2 a < pow2 b"
  show "a < b"
  proof (rule ccontr)
    assume "\<not> a < b"
    then have "b \<le> a" by simp
    then have "pow2 b \<le> pow2 a"
      unfolding pow2_powi by (intro power_int_increasing) simp_all
    with \<open>pow2 a < pow2 b\<close> show False by simp
  qed
next
  assume "a < b"
  then show "pow2 a < pow2 b"
    unfolding pow2_powi by (intro power_int_strict_increasing) simp_all
qed

lemma pow2_le_iff: "pow2 a \<le> pow2 b \<longleftrightarrow> a \<le> b"
  using pow2_less_iff [of b a] by (simp add: linorder_not_less [symmetric] del: linorder_not_less)

lemma pow2_mult_eq: "a + b = c \<Longrightarrow> pow2 a * pow2 b = pow2 c"
  using pow2_add [of a b] by simp

lemma pow2_nat: "0 \<le> e \<Longrightarrow> pow2 e = 2 ^ nat e"
  by (simp add: pow2_def)

lemma pow2_0: "pow2 0 = 1"
  by (simp add: pow2_def)

subsection \<open>The binary logarithm\<close>

lemma ilog2_bounds:
  assumes "0 < r"
  shows "pow2 (ilog2 r) \<le> r" and "r < pow2 (ilog2 r + 1)"
proof -
  show "pow2 (ilog2 r) \<le> r"
  proof (cases "1 \<le> r")
    case True
    define n where "n = \<lfloor>r\<rfloor>"
    have n: "1 \<le> n" using True by (simp add: n_def le_floor_iff)
    have b: "2 ^ nat (bitlen n - 1) \<le> n" using bitlen_bounds [of n] n by simp
    have "bitlen n - 1 \<ge> 0" using n by (simp add: bitlen_alt_def)
    then have "pow2 (bitlen n - 1) = 2 ^ nat (bitlen n - 1)" by (rule pow2_nat)
    also have "\<dots> = of_int (2 ^ nat (bitlen n - 1))" by simp
    also have "\<dots> \<le> of_int n" using b by (simp only: of_int_le_iff)
    also have "\<dots> \<le> r" by (simp add: n_def)
    finally show ?thesis using True by (simp add: ilog2_def n_def)
  next
    case False
    define k where "k = \<lceil>1 / r\<rceil>"
    have r1: "1 < 1 / r" using False assms by simp
    then have k2: "2 \<le> k" unfolding k_def by (simp add: le_ceiling_iff)
    define m where "m = k - 1"
    have m: "1 \<le> m" using k2 by (simp add: m_def)
    have "m < 2 ^ nat (bitlen m)" using bitlen_bounds [of m] m by simp
    then have kle: "k \<le> 2 ^ nat (bitlen m)" by (simp add: m_def)
    have "1 / r \<le> of_int k" by (simp add: k_def)
    also have "\<dots> \<le> of_int (2 ^ nat (bitlen m))" using kle by (simp only: of_int_le_iff)
    also have "\<dots> = 2 ^ nat (bitlen m)" by simp
    finally have "1 / r \<le> 2 ^ nat (bitlen m)" .
    then have "1 / 2 ^ nat (bitlen m) \<le> r"
      using assms by (simp add: field_simps)
    moreover have "pow2 (- bitlen m) = 1 / 2 ^ nat (bitlen m)"
      using m by (auto simp: pow2_def bitlen_alt_def)
    ultimately show ?thesis using False by (simp add: ilog2_def k_def m_def)
  qed
  show "r < pow2 (ilog2 r + 1)"
  proof (cases "1 \<le> r")
    case True
    define n where "n = \<lfloor>r\<rfloor>"
    have n: "1 \<le> n" using True by (simp add: n_def le_floor_iff)
    have b: "n < 2 ^ nat (bitlen n)" using bitlen_bounds [of n] n by simp
    then have b': "n + 1 \<le> 2 ^ nat (bitlen n)" by simp
    have "r < of_int n + 1" by (simp add: n_def)
    also have "\<dots> = of_int (n + 1)" by simp
    also have "\<dots> \<le> of_int (2 ^ nat (bitlen n))" using b' by (simp only: of_int_le_iff)
    also have "\<dots> = 2 ^ nat (bitlen n)" by simp
    also have "\<dots> = pow2 (bitlen n)" by (simp add: pow2_nat bitlen_nonneg)
    finally show ?thesis using True by (simp add: ilog2_def n_def)
  next
    case False
    define k where "k = \<lceil>1 / r\<rceil>"
    have r1: "1 < 1 / r" using False assms by simp
    then have k2: "2 \<le> k" unfolding k_def by (simp add: le_ceiling_iff)
    define m where "m = k - 1"
    have m: "1 \<le> m" using k2 by (simp add: m_def)
    have bm: "1 \<le> bitlen m" using m by (simp add: bitlen_alt_def)
    have b: "2 ^ nat (bitlen m - 1) \<le> m" using bitlen_bounds [of m] m by simp
    have "of_int m < 1 / r" unfolding m_def k_def using ceiling_correct [of "1 / r"] by simp
    moreover have "(2::real) ^ nat (bitlen m - 1) \<le> of_int m"
      using b by (metis of_int_le_iff of_int_numeral of_int_power)
    ultimately have "(2::real) ^ nat (bitlen m - 1) < 1 / r" by (rule order_le_less_trans [rotated])
    then have "r < 1 / 2 ^ nat (bitlen m - 1)"
      using assms by (simp add: field_simps)
    moreover have "pow2 (- bitlen m + 1) = 1 / 2 ^ nat (bitlen m - 1)"
      using bm by (auto simp: pow2_def) 
    ultimately show ?thesis using False by (simp add: ilog2_def k_def m_def)
  qed
qed

lemma ilog2_unique:
  assumes "pow2 e \<le> r" "r < pow2 (e + 1)"
  shows "ilog2 r = e"
proof -
  have r: "0 < r" using assms(1) pow2_pos [of e] by simp
  have "pow2 (ilog2 r) < pow2 (e + 1)"
    using ilog2_bounds(1) [OF r] assms(2) by simp
  then have a: "ilog2 r < e + 1" by (simp add: pow2_less_iff)
  have "pow2 e < pow2 (ilog2 r + 1)"
    using ilog2_bounds(2) [OF r] assms(1) by simp
  then have "e < ilog2 r + 1" by (simp add: pow2_less_iff)
  with a show ?thesis by simp
qed

lemma ilog2_mono:
  assumes "0 < r" "r \<le> s"
  shows "ilog2 r \<le> ilog2 s"
proof -
  have s: "0 < s" using assms by simp
  have "pow2 (ilog2 r) \<le> r" using ilog2_bounds(1) [OF assms(1)] .
  also have "r \<le> s" by fact
  also have "s < pow2 (ilog2 s + 1)" using ilog2_bounds(2) [OF s] .
  finally have "ilog2 r < ilog2 s + 1" by (simp add: pow2_less_iff)
  then show ?thesis by simp
qed


subsection \<open>Rounding to the nearest integer, ties to even\<close>

lemma round_even_of_int [simp]: "round_even (of_int n) = n"
  by (simp add: round_even_def)

lemma round_even_bounds:
  "x - 1 / 2 \<le> of_int (round_even x)" "of_int (round_even x) \<le> x + 1 / 2"
proof -
  have f: "of_int \<lfloor>x\<rfloor> \<le> x" "x < of_int \<lfloor>x\<rfloor> + 1" by linarith+
  have c: "(round_even x = \<lfloor>x\<rfloor> \<and> x - of_int \<lfloor>x\<rfloor> \<le> 1 / 2) \<or>
           (round_even x = \<lfloor>x\<rfloor> + 1 \<and> 1 / 2 \<le> x - of_int \<lfloor>x\<rfloor>)"
    unfolding round_even_def Let_def by (simp only: split: if_split) linarith
  define z where "z = \<lfloor>x\<rfloor>"
  note c = c [folded z_def] and f = f [folded z_def]
  show "x - 1 / 2 \<le> of_int (round_even x)"
    using c f by auto
  show "of_int (round_even x) \<le> x + 1 / 2"
    using c f by auto
qed

lemma round_even_tie:
  assumes "of_int (round_even x) = x + 1 / 2"
  shows "even (round_even x)"
proof -
  have f: "of_int \<lfloor>x\<rfloor> \<le> x" "x < of_int \<lfloor>x\<rfloor> + 1" by linarith+
  show ?thesis
  proof (cases "x - of_int \<lfloor>x\<rfloor> < 1 / 2")
    case True
    then have "round_even x = \<lfloor>x\<rfloor>" by (simp add: round_even_def)
    with assms f show ?thesis by simp
  next
    case False
    show ?thesis
    proof (cases "1 / 2 < x - of_int \<lfloor>x\<rfloor>")
      case True
      then have "round_even x = \<lfloor>x\<rfloor> + 1" using False by (simp add: round_even_def)
      with assms True show ?thesis by simp
    next
      case F2: False
      show ?thesis
      proof (cases "even \<lfloor>x\<rfloor>")
        case True
        then have "round_even x = \<lfloor>x\<rfloor>" using False F2 by (simp add: round_even_def)
        with assms f show ?thesis by simp
      next
        case F3: False
        then have "round_even x = \<lfloor>x\<rfloor> + 1" using False F2 by (simp add: round_even_def)
        with F3 show ?thesis by simp
      qed
    qed
  qed
qed

lemma round_even_tie':
  assumes "of_int (round_even x) = x - 1 / 2"
  shows "even (round_even x)"
proof -
  have f: "of_int \<lfloor>x\<rfloor> \<le> x" "x < of_int \<lfloor>x\<rfloor> + 1" by linarith+
  show ?thesis
  proof (cases "x - of_int \<lfloor>x\<rfloor> < 1 / 2")
    case True
    then have "round_even x = \<lfloor>x\<rfloor>" by (simp add: round_even_def)
    with assms True show ?thesis by simp
  next
    case False
    show ?thesis
    proof (cases "1 / 2 < x - of_int \<lfloor>x\<rfloor>")
      case True
      then have "round_even x = \<lfloor>x\<rfloor> + 1" using False by (simp add: round_even_def)
      with assms f show ?thesis by simp
    next
      case F2: False
      show ?thesis
      proof (cases "even \<lfloor>x\<rfloor>")
        case True
        then have "round_even x = \<lfloor>x\<rfloor>" using False F2 by (simp add: round_even_def)
        with True show ?thesis by simp
      next
        case F3: False
        then have "round_even x = \<lfloor>x\<rfloor> + 1" using False F2 by (simp add: round_even_def)
        with assms f show ?thesis by simp
      qed
    qed
  qed
qed

lemma round_even_mono:
  assumes "x \<le> y"
  shows "round_even x \<le> round_even y"
proof (rule ccontr)
  assume "\<not> round_even x \<le> round_even y"
  then have gt: "round_even y + 1 \<le> round_even x" by simp
  then have "of_int (round_even y) + (1::real) \<le> of_int (round_even x)"
    by (metis of_int_1 of_int_add of_int_le_iff)
  moreover note round_even_bounds(2) [of x] round_even_bounds(1) [of y] assms
  ultimately have a: "of_int (round_even x) = x + 1 / 2" and b: "of_int (round_even y) = y - 1 / 2"
    and c: "of_int (round_even x) = of_int (round_even y) + (1::real)"
    by linarith+
  have "even (round_even x)" using a by (rule round_even_tie)
  moreover have "even (round_even y)" using b by (rule round_even_tie')
  moreover have "round_even x = round_even y + 1"
    using c by (metis of_int_1 of_int_add of_int_eq_iff)
  ultimately show False by simp
qed

lemma round_even_le: "x \<le> of_int k \<Longrightarrow> round_even x \<le> k"
  using round_even_mono [of x "of_int k"] by simp

lemma round_even_ge: "of_int k \<le> x \<Longrightarrow> k \<le> round_even x"
  using round_even_mono [of "of_int k" x] by simp

lemma round_even_minus: "round_even (- x) = - round_even x"
proof (cases "x = of_int \<lfloor>x\<rfloor>")
  case True
  then obtain n where "x = of_int n" ..
  then have "- x = of_int (- n)" by simp
  then show ?thesis using \<open>x = of_int n\<close> by (metis round_even_of_int)
next
  case False
  have f: "of_int \<lfloor>x\<rfloor> < x" "x < of_int \<lfloor>x\<rfloor> + 1" using False by linarith+
  have fl: "\<lfloor>- x\<rfloor> = - \<lfloor>x\<rfloor> - 1"
  proof (rule floor_unique)
    show "of_int (- \<lfloor>x\<rfloor> - 1) \<le> - x" using f by linarith
    show "- x < of_int (- \<lfloor>x\<rfloor> - 1) + 1" using f by linarith
  qed
  have d: "- x - of_int \<lfloor>- x\<rfloor> = 1 - (x - of_int \<lfloor>x\<rfloor>)" by (simp add: fl)
  show ?thesis
    unfolding round_even_def Let_def d unfolding fl
    by (simp only: split: if_split) (use f in auto)
qed


subsection \<open>The rounding is symmetric and monotone\<close>

lemma quantum_pos: "0 < quantum r"
  by (simp add: quantum_def pow2_pos)

lemma exponent_minus: "exponent (- r) = exponent r"
  by (simp add: exponent_def)

lemma quantum_minus: "quantum (- r) = quantum r"
  by (simp add: quantum_def exponent_minus)

lemma rnd_val_minus: "rnd_val (- r) = - rnd_val r"
  by (simp add: rnd_val_def quantum_minus round_even_minus)

lemma rnd_val_0 [simp]: "rnd_val 0 = 0"
  using round_even_of_int [of 0] by (simp add: rnd_val_def)

lemma exponent_ge: "- 1022 \<le> exponent r"
  by (simp add: exponent_def)

lemma exponent_mono:
  assumes "0 < r" "r \<le> s"
  shows "exponent r \<le> exponent s"
  using ilog2_mono [of "\<bar>r\<bar>" "\<bar>s\<bar>"] assms by (simp add: exponent_def max_def)

lemma abs_less_pow2_exponent: "\<bar>r\<bar> < pow2 (exponent r + 1)"
proof (cases "r = 0")
  case True
  then show ?thesis by (simp add: pow2_pos)
next
  case False
  then have "0 < \<bar>r\<bar>" by simp
  then have "\<bar>r\<bar> < pow2 (ilog2 \<bar>r\<bar> + 1)" by (rule ilog2_bounds(2))
  also have "\<dots> \<le> pow2 (exponent r + 1)"
    by (simp add: pow2_le_iff exponent_def)
  finally show ?thesis .
qed

lemma rnd_val_nonneg:
  assumes "0 \<le> r"
  shows "0 \<le> rnd_val r"
proof -
  have "0 \<le> r / quantum r" using assms quantum_pos [of r] by simp
  then have "0 \<le> round_even (r / quantum r)"
    using round_even_ge [of 0 "r / quantum r"] by simp
  then show ?thesis using quantum_pos [of r] by (simp add: rnd_val_def)
qed

lemma rnd_val_mono_pos:
  assumes "0 < r" "r \<le> s"
  shows "rnd_val r \<le> rnd_val s"
proof (cases "exponent r = exponent s")
  case True
  then have q: "quantum r = quantum s" by (simp add: quantum_def)
  have "r / quantum s \<le> s / quantum s"
    using assms quantum_pos [of s] by (simp add: divide_right_mono)
  then have "round_even (r / quantum s) \<le> round_even (s / quantum s)"
    by (rule round_even_mono)
  then have "of_int (round_even (r / quantum s)) * quantum s
      \<le> of_int (round_even (s / quantum s)) * quantum s"
    using quantum_pos [of s] by (simp add: mult_right_mono)
  then show ?thesis by (simp add: rnd_val_def q)
next
  case False
  with exponent_mono [OF assms] have lt: "exponent r < exponent s" by simp
  have s: "0 < s" using assms by simp
  have "- 1022 < exponent s" using lt exponent_ge [of r] by simp
  then have es: "exponent s = ilog2 s" using s by (simp add: exponent_def max_def split: if_splits)
  have low: "pow2 (exponent s) \<le> s" unfolding es using s by (rule ilog2_bounds(1))
  have "r < pow2 (exponent r + 1)" using abs_less_pow2_exponent [of r] assms by simp
  also have "\<dots> \<le> pow2 (exponent s)" using lt by (simp add: pow2_le_iff)
  finally have up: "r \<le> pow2 (exponent s)" by simp
  \<comment> \<open>the boundary \<open>2 ^ exponent s\<close> is a multiple of both spacings\<close>
  have "r / quantum r \<le> pow2 (exponent s) / quantum r"
    using up quantum_pos [of r] by (simp add: divide_right_mono)
  also have "pow2 (exponent s) / quantum r = pow2 (exponent s - exponent r + 52)"
    using pow2_add [of "exponent s - exponent r + 52" "exponent r - 52"] pow2_pos [of "exponent r - 52"]
    by (simp add: quantum_def field_simps)
  also have "\<dots> = of_int (2 ^ nat (exponent s - exponent r + 52))"
    using lt by (simp add: pow2_nat)
  finally have "round_even (r / quantum r) \<le> 2 ^ nat (exponent s - exponent r + 52)"
    by (rule round_even_le)
  then have "of_int (round_even (r / quantum r)) \<le> (of_int (2 ^ nat (exponent s - exponent r + 52)) :: real)"
    by (simp only: of_int_le_iff)
  then have "rnd_val r \<le> of_int (2 ^ nat (exponent s - exponent r + 52)) * quantum r"
    using quantum_pos [of r] by (simp add: rnd_val_def mult_right_mono del: of_int_power)
  also have "of_int (2 ^ nat (exponent s - exponent r + 52)) = pow2 (exponent s - exponent r + 52)"
    using lt by (simp add: pow2_nat)
  also have "pow2 (exponent s - exponent r + 52) * quantum r = pow2 (exponent s)"
    using pow2_add [of "exponent s - exponent r + 52" "exponent r - 52"] by (simp add: quantum_def)
  finally have a: "rnd_val r \<le> pow2 (exponent s)" .
  have "pow2 (exponent s) / quantum s \<le> s / quantum s"
    using low quantum_pos [of s] by (simp add: divide_right_mono)
  moreover have "pow2 (exponent s) / quantum s = of_int (2 ^ 52)"
    using pow2_add [of 52 "exponent s - 52"] pow2_pos [of "exponent s - 52"]
    by (simp add: quantum_def pow2_nat field_simps)
  ultimately have "of_int (2 ^ 52) \<le> s / quantum s" by simp
  then have "2 ^ 52 \<le> round_even (s / quantum s)" by (rule round_even_ge)
  then have "(of_int (2 ^ 52) :: real) \<le> of_int (round_even (s / quantum s))"
    by (simp only: of_int_le_iff)
  then have "of_int (2 ^ 52) * quantum s \<le> rnd_val s"
    using quantum_pos [of s] by (simp add: rnd_val_def mult_right_mono del: of_int_power)
  moreover have "of_int (2 ^ 52) * quantum s = pow2 (exponent s)"
    using pow2_add [of 52 "exponent s - 52"] by (simp add: quantum_def pow2_nat)
  ultimately have "pow2 (exponent s) \<le> rnd_val s" by simp
  with a show ?thesis by simp
qed

lemma rnd_val_mono:
  assumes "r \<le> s"
  shows "rnd_val r \<le> rnd_val s"
proof -
  consider "0 < r" | "r \<le> 0" "0 \<le> s" | "s < 0" by linarith
  then show ?thesis
  proof cases
    case 1
    then show ?thesis using assms by (rule rnd_val_mono_pos)
  next
    case 2
    have "rnd_val r \<le> 0" using rnd_val_nonneg [of "- r"] 2 by (simp add: rnd_val_minus)
    also have "0 \<le> rnd_val s" using 2 by (simp add: rnd_val_nonneg)
    finally show ?thesis .
  next
    case 3
    have "rnd_val (- s) \<le> rnd_val (- r)"
      using 3 assms by (intro rnd_val_mono_pos) simp_all
    then show ?thesis by (simp add: rnd_val_minus)
  qed
qed


subsection \<open>The doubles are the fixed points of the rounding\<close>

lemma rnd_val_fix_int:
  assumes "r / quantum r = of_int k"
  shows "rnd_val r = r"
proof -
  have "r = of_int k * quantum r"
    using assms quantum_pos [of r] by (simp add: field_simps)
  then show ?thesis using assms by (simp add: rnd_val_def)
qed

lemma ilog2_le:
  assumes "0 < r" "r < pow2 (e + 1)"
  shows "ilog2 r \<le> e"
proof -
  have "pow2 (ilog2 r) < pow2 (e + 1)"
    using ilog2_bounds(1) [OF assms(1)] assms(2) by simp
  then show ?thesis by (simp add: pow2_less_iff)
qed

lemma rnd_val_fix:
  assumes e: "- 1074 \<le> e" and m: "\<bar>m\<bar> \<le> 2 ^ 53"
  shows "rnd_val (of_int m * pow2 e) = of_int m * pow2 e"
proof (cases "m = 0")
  case True
  then show ?thesis by simp
next
  case False
  define x where "x = of_int m * pow2 e"
  have ax: "\<bar>x\<bar> = of_int \<bar>m\<bar> * pow2 e"
    using pow2_pos [of e] by (simp add: x_def abs_mult)
  have xpos: "0 < \<bar>x\<bar>" using False pow2_pos [of e] by (simp add: x_def)
  show ?thesis
  proof (cases "\<bar>m\<bar> = 2 ^ 53")
    case True
    have "\<bar>x\<bar> = pow2 (e + 53)"
      using pow2_add [of e 53] by (simp add: ax True pow2_nat)
    then have "ilog2 \<bar>x\<bar> = e + 53"
      by (intro ilog2_unique) (simp_all add: pow2_less_iff)
    then have "exponent x = e + 53" using e by (simp add: exponent_def)
    then have q: "quantum x = pow2 (e + 1)" by (simp add: quantum_def add.commute)
    have "even \<bar>m\<bar>" unfolding True by simp
    then have "even m" by simp
    then obtain h where h: "m = 2 * h" by (elim evenE)
    have "x / quantum x = x / pow2 (e + 1)" by (simp only: q)
    also have "\<dots> = of_int h"
      using pow2_add [of e 1] pow2_pos [of e] by (simp add: x_def h pow2_nat)
    finally show ?thesis unfolding x_def [symmetric] by (rule rnd_val_fix_int)
  next
    case F2: False
    with m have "\<bar>m\<bar> < 2 ^ 53" by simp
    then have "(of_int \<bar>m\<bar> :: real) < of_int (2 ^ 53)" by (simp only: of_int_less_iff)
    then have "\<bar>x\<bar> < 2 ^ 53 * pow2 e" using pow2_pos [of e] by (simp add: ax)
    also have "\<dots> = pow2 (e + 52 + 1)"
      using pow2_mult_eq [of 53 e "e + 52 + 1"] by (simp add: pow2_nat)
    finally have "ilog2 \<bar>x\<bar> \<le> e + 52" using xpos by (intro ilog2_le)
    then have "exponent x \<le> e + 52" using e by (simp add: exponent_def)
    then obtain d where d: "e = exponent x - 52 + d" "0 \<le> d"
      by (metis add.commute diff_ge_0_iff_ge diff_add_cancel diff_le_eq)
    have "pow2 e = pow2 d * quantum x"
      using pow2_add [of d "exponent x - 52"] d by (simp add: quantum_def add.commute)
    then have "x = of_int m * pow2 d * quantum x" by (simp add: x_def)
    then have "x / quantum x = of_int m * pow2 d * quantum x / quantum x" by simp
    also have "\<dots> = of_int m * pow2 d" using quantum_pos [of x] by simp
    also have "\<dots> = of_int (m * 2 ^ nat d)" using d by (simp add: pow2_nat)
    finally show ?thesis unfolding x_def [symmetric] by (rule rnd_val_fix_int)
  qed
qed

lemma round_even_abs_le:
  assumes "\<bar>x\<bar> \<le> of_int k"
  shows "\<bar>round_even x\<bar> \<le> k"
proof -
  have "round_even x \<le> k" using assms by (intro round_even_le) simp
  moreover have "- k \<le> round_even x" using assms by (intro round_even_ge) simp
  ultimately show ?thesis by simp
qed

lemma mantissa_le: "\<bar>round_even (r / quantum r)\<bar> \<le> 2 ^ 53"
proof -
  have "\<bar>r\<bar> < pow2 (exponent r + 1)" by (rule abs_less_pow2_exponent)
  also have "\<dots> = 2 ^ 53 * quantum r"
    using pow2_mult_eq [of 53 "exponent r - 52" "exponent r + 1"] by (simp add: quantum_def pow2_nat)
  finally have "\<bar>r / quantum r\<bar> \<le> of_int (2 ^ 53)"
    using quantum_pos [of r] by (simp add: field_simps)
  then show ?thesis by (rule round_even_abs_le)
qed

lemma rnd_val_idem [simp]: "rnd_val (rnd_val r) = rnd_val r"
proof -
  have "rnd_val r = of_int (round_even (r / quantum r)) * pow2 (exponent r - 52)"
    by (simp add: rnd_val_def quantum_def)
  moreover have "rnd_val (of_int (round_even (r / quantum r)) * pow2 (exponent r - 52))
      = of_int (round_even (r / quantum r)) * pow2 (exponent r - 52)"
    using exponent_ge [of r] mantissa_le [of r] by (intro rnd_val_fix) simp_all
  ultimately show ?thesis by simp
qed

lemma rnd_val_of_int:
  assumes "\<bar>k\<bar> \<le> 2 ^ 53"
  shows "rnd_val (of_int k) = of_int k"
  using rnd_val_fix [of 0 k] assms by (simp add: pow2_0)

lemma rnd_val_pow2:
  assumes "- 1074 \<le> e"
  shows "rnd_val (pow2 e) = pow2 e"
  using rnd_val_fix [of e 1] assms by simp

lemma rnd_val_le:
  assumes "r \<le> a" "rnd_val a = a"
  shows "rnd_val r \<le> a"
  using rnd_val_mono [OF assms(1)] assms(2) by simp

lemma rnd_val_ge:
  assumes "a \<le> r" "rnd_val a = a"
  shows "a \<le> rnd_val r"
  using rnd_val_mono [OF assms(1)] assms(2) by simp

lemma rnd_val_abs_le:
  assumes "\<bar>r\<bar> \<le> a" "rnd_val a = a"
  shows "\<bar>rnd_val r\<bar> \<le> a"
proof -
  have "rnd_val (- a) = - a" using assms(2) by (simp add: rnd_val_minus)
  then have "- a \<le> rnd_val r" using assms(1) by (intro rnd_val_ge) simp_all
  moreover have "rnd_val r \<le> a" using assms by (intro rnd_val_le) simp_all
  ultimately show ?thesis by simp
qed

subsection \<open>Results of the rounding as doubles\<close>

lemma overflow_threshold_pos [simp]: "0 < overflow_threshold"
  by (simp add: overflow_threshold_def)

lemma rnd_not_NaN [simp]: "rnd r \<noteq> NaN"
  by (simp add: rnd_def Let_def)

lemma rnd_finite:
  assumes "\<bar>rnd_val r\<bar> < overflow_threshold"
  shows "rnd r = (if rnd_val r = 0 then (if r < 0 then NegZero else Fin 0) else Fin (rnd_val r))"
  using assms by (auto simp: rnd_def Let_def)

lemma is_double_0 [simp]: "is_double 0"
  by (simp add: is_double_def)

lemma is_double_minus [simp]: "is_double (- r) = is_double r"
  by (auto simp: is_double_def rnd_val_minus)

lemma rnd_exact:
  assumes "is_double r"
  shows "rnd r = Fin r"
  using assms by (simp add: rnd_finite is_double_def)

lemma rnd_is_double:
  assumes "rnd s = Fin x"
  shows "is_double x"
  using assms by (auto simp: rnd_def Let_def is_double_def split: if_splits)

lemma rnd_val_abs_le_double:
  assumes "\<bar>r\<bar> \<le> B" "is_double B"
  shows "\<bar>rnd_val r\<bar> \<le> B" "\<bar>rnd_val r\<bar> < overflow_threshold"
proof -
  show "\<bar>rnd_val r\<bar> \<le> B" using assms by (intro rnd_val_abs_le) (simp_all add: is_double_def)
  then show "\<bar>rnd_val r\<bar> < overflow_threshold" using assms(2) by (simp add: is_double_def)
qed

lemma rnd_bounded:
  assumes "\<bar>r\<bar> \<le> B" "is_double B"
  shows "finite_d (rnd r)" and "\<bar>fin_val (rnd r)\<bar> \<le> B" and "fin_val (rnd r) = rnd_val r"
proof -
  note b = rnd_val_abs_le_double [OF assms]
  have B: "0 \<le> B" using assms(1) by simp
  show "finite_d (rnd r)" using b by (simp add: rnd_finite finite_d_def)
  show "fin_val (rnd r) = rnd_val r" using b by (simp add: rnd_finite)
  then show "\<bar>fin_val (rnd r)\<bar> \<le> B" using b by simp
qed

lemma is_double_of_int:
  assumes "\<bar>k\<bar> \<le> 2 ^ 53"
  shows "is_double (of_int k)"
proof -
  have "(of_int \<bar>k\<bar> :: real) \<le> of_int (2 ^ 53)" using assms by (simp only: of_int_le_iff)
  then have "\<bar>of_int k :: real\<bar> < overflow_threshold" by (simp add: overflow_threshold_def)
  then show ?thesis using assms by (simp add: is_double_def rnd_val_of_int)
qed

lemma is_double_pow2:
  assumes "- 1074 \<le> e" "e < 1024"
  shows "is_double (pow2 e)"
proof -
  have "pow2 e < pow2 1024" using assms by (simp add: pow2_less_iff)
  then have "\<bar>pow2 e\<bar> < overflow_threshold"
    using pow2_pos [of e] by (simp add: pow2_nat overflow_threshold_def)
  then show ?thesis using assms by (simp add: is_double_def rnd_val_pow2)
qed

lemma is_double_power2:
  assumes "n < 1024"
  shows "is_double (2 ^ n)"
  using is_double_pow2 [of "int n"] assms by (simp add: pow2_nat)

lemma dbl_of_int_exact:
  assumes "\<bar>k\<bar> \<le> 2 ^ 53"
  shows "dbl_of_int k = Fin (of_int k)"
  unfolding dbl_of_int_def using assms by (intro rnd_exact is_double_of_int)

lemma rnd_mono_ge:
  assumes "a \<le> r" "is_double a" "0 < a"
  shows "rnd r = PInf \<or> (\<exists>v. rnd r = Fin v \<and> a \<le> v)"
proof -
  have "a \<le> rnd_val r" using assms by (intro rnd_val_ge) (simp_all add: is_double_def)
  then show ?thesis using assms(3) by (auto simp: rnd_def Let_def)
qed

lemma rnd_mono_le:
  assumes "r \<le> a" "is_double a" "0 \<le> r"
  shows "\<exists>v. rnd r = Fin v \<and> 0 \<le> v \<and> v \<le> a"
proof -
  have "rnd_val r \<le> a" using assms by (intro rnd_val_le) (simp_all add: is_double_def)
  moreover have "0 \<le> rnd_val r" using assms by (intro rnd_val_nonneg)
  moreover have "a < overflow_threshold" using assms(2) by (auto simp: is_double_def)
  ultimately show ?thesis using assms(3) by (auto simp: rnd_def Let_def)
qed

lemma rnd_nonneg:
  assumes "0 \<le> r"
  shows "rnd r = PInf \<or> (\<exists>v. rnd r = Fin v \<and> 0 \<le> v)"
  using rnd_val_nonneg [OF assms] assms by (auto simp: rnd_def Let_def)


section \<open>Evaluation\<close>

text \<open>The definitions are executable; these are the equations that evaluate them on numerals.\<close>

lemma bitlen_numeral:
  "bitlen (numeral (Num.Bit0 n)) = bitlen (numeral n) + 1"
  "bitlen (numeral (Num.Bit1 n)) = bitlen (numeral n) + 1"
  "bitlen (numeral Num.One) = 1"
  "bitlen 1 = 1"
  "bitlen (- numeral n) = 0"
  by (subst compute_bitlen, simp)+

lemmas double_eval = rnd_def rnd_val_def quantum_def exponent_def ilog2_def pow2_def
  round_even_def overflow_threshold_def bitlen_numeral dadd_def dsub_def dmul_def ddiv_def
  dlt_def dle_def dgt_def dge_def dbl_of_int_def trunc_def signed_zero_def signed_inf_def

lemmas int_eval = MaxValue_def MinValue_def in_range_def checked_def and_then_def mul_add_def
  to_int_type_def unrepresentable_def Fraction_def plus_int_def

lemmas body_eval = loop_body_def after_step_def asserts_hold_def testLow_def testHigh_def
  x1_def x2_def out_of_bounds_x1_def out_of_bounds_x2_def step_x1_def step_x2_def toFloat_def
  initial_def

lemmas toFract_eval = toFract_def search_def remainder_def intPart_def loop.simps


section \<open>The loop\<close>

lemma loop_Break:
  "loop_body cfg T val Precision b = Break why b' \<Longrightarrow> loop cfg T val Precision b = Some (Inr (why, b'))"
  by (subst loop.simps) simp

lemma loop_Continue:
  "loop_body cfg T val Precision b = Continue b' \<Longrightarrow> loop cfg T val Precision b = loop cfg T val Precision b'"
  by (subst loop.simps) simp

lemma loop_Abort:
  "loop_body cfg T val Precision b = Abort e \<Longrightarrow> loop cfg T val Precision b = Some (Inl e)"
  by (subst loop.simps) simp

lemma visits_loop:
  assumes "visits cfg T val Precision b"
  shows "loop cfg T val Precision b = loop cfg T val Precision initial"
  using assms by induction (simp_all add: loop_Continue)

lemma and_then_Inr:
  "and_then r f = Inr y \<longleftrightarrow> (\<exists>v. r = Inr v \<and> f v = Inr y)"
  by (cases r) (simp_all add: and_then_def)

lemma checked_Inr: "checked T i = Inr j \<longleftrightarrow> j = i \<and> in_range T i"
  by (auto simp: checked_def)

lemma mul_add_Inr:
  "mul_add T a b c = Inr r \<longleftrightarrow> r = a * b + c \<and> in_range T (a * b) \<and> in_range T (a * b + c)"
  by (auto simp: mul_add_def and_then_Inr checked_Inr)

subsection \<open>Lowest terms\<close>

lemma Fraction_normalized:
  assumes "Fraction T n d = Inr f"
  shows "normalized f"
proof (cases "d = 0 \<or> n = 0")
  case True
  then show ?thesis using assms by (auto simp: Fraction_def normalized_def split: if_splits)
next
  case False
  define g where "g = gcd n d"
  have g: "g \<noteq> 0" using False by (simp add: g_def)
  have co: "gcd (n div g) (d div g) = 1"
    unfolding g_def using False by (intro div_gcd_coprime [unfolded coprime_iff_gcd_eq_1]) simp
  have d0: "d div g \<noteq> 0"
    using False by (metis g_def dvd_div_eq_0_iff gcd_dvd2)
  show ?thesis
  proof (cases "d div g < 0")
    case True
    then have "numerator f = - (n div g) \<and> denominator f = - (d div g)"
      using assms False
      by (auto simp: Fraction_def Let_def g_def and_then_Inr checked_Inr split: if_splits)
    then show ?thesis using True co by (simp add: normalized_def)
  next
    case F: False
    then have "numerator f = n div g \<and> denominator f = d div g"
      using assms False
      by (auto simp: Fraction_def Let_def g_def and_then_Inr checked_Inr split: if_splits)
    then show ?thesis using F d0 co by (simp add: normalized_def)
  qed
qed

lemma step_x1_normalized:
  assumes "step_x1 T n b = Inr b'"
  shows "normalized (low b') \<and> normalized (high b')"
  using assms by (auto simp: step_x1_def and_then_Inr dest: Fraction_normalized)

lemma step_x2_normalized:
  assumes "step_x2 T n b = Inr b'"
  shows "normalized (low b') \<and> normalized (high b')"
  using assms by (auto simp: step_x2_def and_then_Inr dest: Fraction_normalized)

lemma after_step_Continue:
  "after_step cfg val r = Continue b' \<longleftrightarrow> r = Inr b' \<and> asserts_hold cfg val b'"
  by (cases r) (auto simp: after_step_def)

lemma loop_body_Continue_normalized:
  assumes "loop_body cfg T val Precision b = Continue b'"
  shows "normalized (low b') \<and> normalized (high b')"
  using assms
  by (auto simp: loop_body_def after_step_Continue split: if_splits
      dest: step_x1_normalized step_x2_normalized)

lemma loop_body_Break_bounds:
  assumes "loop_body cfg T val Precision b = Break why b'"
  shows "b' = b \<or> b' = b\<lparr>high := low b\<rparr>"
  using assms
  by (auto simp: loop_body_def after_step_def split: if_splits sum.splits)

lemma initial_normalized: "normalized (low initial) \<and> normalized (high initial)"
  by (simp add: initial_def normalized_def)

lemma visits_normalized:
  assumes "visits cfg T val Precision b"
  shows "normalized (low b) \<and> normalized (high b)"
  using assms by induction (simp_all add: initial_normalized loop_body_Continue_normalized)

lemma loop_normalized_aux:
  assumes "loop cfg T val Precision b = Some r"
  shows "normalized (low b) \<and> normalized (high b) \<longrightarrow>
    (case r of Inl e \<Rightarrow> True | Inr (why, b') \<Rightarrow> normalized (low b') \<and> normalized (high b'))"
proof -
  let ?Q = "\<lambda>(cfg::platform) (T::int_type) (val::double) (Precision::double) b r.
    normalized (low b) \<and> normalized (high b) \<longrightarrow>
    (case r of Inl e \<Rightarrow> True | Inr (why, b') \<Rightarrow> normalized (low b') \<and> normalized (high b'))"
  have "?Q cfg T val Precision b r"
  proof (rule loop.raw_induct [where P = ?Q, OF _ assms], goal_cases)
    case (1 loop' cfg T val Precision b r)
    show ?case
    proof
      assume n: "normalized (low b) \<and> normalized (high b)"
      show "case r of Inl e \<Rightarrow> True | Inr (why, b') \<Rightarrow> normalized (low b') \<and> normalized (high b')"
      proof (cases "loop_body cfg T val Precision b")
        case (Break why b')
        then have "r = Inr (why, b')" using 1(2) by simp
        moreover have "b' = b \<or> b' = b\<lparr>high := low b\<rparr>"
          using Break by (rule loop_body_Break_bounds)
        ultimately show ?thesis using n by auto
      next
        case (Continue b')
        then have "loop' cfg T val Precision b' = Some r" using 1(2) by simp
        moreover have "normalized (low b') \<and> normalized (high b')"
          using Continue by (rule loop_body_Continue_normalized)
        ultimately show ?thesis using 1(1) by blast
      next
        case (Abort e)
        then show ?thesis using 1(2) by auto
      qed
    qed
  qed
  then show ?thesis .
qed

lemma loop_normalized:
  assumes "loop cfg T val Precision b = Some (Inr (why, b'))"
    and "normalized (low b) \<and> normalized (high b)"
  shows "normalized (low b') \<and> normalized (high b')"
  using loop_normalized_aux [OF assms(1)] assms(2) by simp

lemma plus_int_normalized:
  assumes "plus_int T f i = Inr g" "normalized f"
  shows "normalized g"
proof -
  have g: "numerator g = i * denominator f + numerator f" "denominator g = denominator f"
    using assms(1) by (auto simp: plus_int_def and_then_Inr mul_add_Inr)
  have "gcd (i * denominator f + numerator f) (denominator f) = gcd (numerator f) (denominator f)"
    by (metis add.commute gcd.commute gcd_add_mult)
  then show ?thesis using assms(2) by (simp add: normalized_def g)
qed


section \<open>Lowest terms\<close>

text \<open>
  Claim C9. Every fraction \<^verbatim>\<open>toFract\<close> returns, and every bound \<open>low\<close> and \<open>high\<close> the loop
  comes to hold, is in lowest terms with a denominator of at least 1: the bounds are built by
  the normalizing constructor, and adding an integer to a fraction in lowest terms leaves it in
  lowest terms.
\<close>

theorem toFract_lowest_terms:
  "(toFract cfg T val Precision = Some (Inr f) \<longrightarrow> normalized f) \<and>
   (visits cfg T (remainder cfg T val) Precision b \<longrightarrow> normalized (low b) \<and> normalized (high b))"
proof (rule conjI; rule impI)
  assume "visits cfg T (remainder cfg T val) Precision b"
  then show "normalized (low b) \<and> normalized (high b)" by (rule visits_normalized)
next
  assume r: "toFract cfg T val Precision = Some (Inr f)"
  then obtain why bf where s: "search cfg T val Precision = Some (Inr (why, bf))"
    and p: "plus_int T (high bf) (intPart cfg T val) = Inr f"
    by (auto simp: toFract_def split: option.splits sum.splits)
  from s have "loop cfg T (remainder cfg T val) Precision initial = Some (Inr (why, bf))"
    by (simp add: search_def split: if_splits)
  then have "normalized (low bf) \<and> normalized (high bf)"
    using initial_normalized by (rule loop_normalized)
  with p show "normalized f" using plus_int_normalized by blast
qed

theorem toFract_lowest_terms_witness:
  "toFract \<lparr>assertions = True, out_of_range = Indefinite\<rparr> Int64 (Fin (5 / 2)) (Fin (1 / 2 ^ 52))
     = Some (Inr \<lparr>numerator = 5, denominator = 2\<rparr>) \<and>
   normalized \<lparr>numerator = 5, denominator = 2\<rparr> \<and>
   visits \<lparr>assertions = True, out_of_range = Indefinite\<rparr> Int64
     (remainder \<lparr>assertions = True, out_of_range = Indefinite\<rparr> Int64 (Fin (5 / 2)))
     (Fin (1 / 2 ^ 52)) initial \<and>
   normalized (low initial) \<and> normalized (high initial)"
proof -
  let ?cfg = "\<lparr>assertions = True, out_of_range = Indefinite\<rparr>"
  have r: "toFract ?cfg Int64 (Fin (5 / 2)) (Fin (1 / 2 ^ 52))
     = Some (Inr \<lparr>numerator = 5, denominator = 2\<rparr>)"
    by (simp add: toFract_eval body_eval int_eval double_eval)
  have v: "visits ?cfg Int64 (remainder ?cfg Int64 (Fin (5 / 2))) (Fin (1 / 2 ^ 52)) initial"
    by (rule visits.start)
  from toFract_lowest_terms [of ?cfg Int64 "Fin (5 / 2)" "Fin (1 / 2 ^ 52)"
      "\<lparr>numerator = 5, denominator = 2\<rparr>" initial] r v
  show ?thesis by simp
qed


lemma toFract_from_visit:
  assumes "visits cfg T (remainder cfg T val) Precision b"
    and "\<not> dgt (dabs (remainder cfg T val)) (Fin 1)"
    and "loop_body cfg T (remainder cfg T val) Precision b = Break why b'"
  shows "toFract cfg T val Precision = Some (plus_int T (high b') (intPart cfg T val))"
proof -
  have "loop cfg T (remainder cfg T val) Precision initial = Some (Inr (why, b'))"
    using visits_loop [OF assms(1)] loop_Break [OF assms(3)] by simp
  then show ?thesis using assms(2) by (simp add: toFract_def search_def)
qed

section \<open>The two precision tests\<close>

text \<open>
  Claim C6. A pass through the loop body (one that gets past the assertions at its head)
  computes \<open>testLow = low.denominator * val - low.numerator\<close> and
  \<open>testHigh = high.numerator - high.denominator * val\<close> in \<^verbatim>\<open>double\<close>, and tests \<open>testHigh\<close>
  first: if \<open>testHigh < Precision\<close> the function returns \<open>high\<close> (plus the integer part); only
  otherwise, if \<open>testLow < Precision\<close>, it returns \<open>low\<close> (plus the integer part).
\<close>

theorem precision_tests_in_order:
  assumes "visits cfg T (remainder cfg T val) Precision b"
    and "\<not> dgt (dabs (remainder cfg T val)) (Fin 1)"
    and "asserts_hold cfg (remainder cfg T val) b"
  shows "testLow (remainder cfg T val) b =
           dsub (dmul (dbl_of_int (denominator (low b))) (remainder cfg T val))
                (dbl_of_int (numerator (low b))) \<and>
         testHigh (remainder cfg T val) b =
           dsub (dbl_of_int (numerator (high b)))
                (dmul (dbl_of_int (denominator (high b))) (remainder cfg T val)) \<and>
         (dlt (testHigh (remainder cfg T val) b) Precision \<longrightarrow>
            loop_body cfg T (remainder cfg T val) Precision b = Break HighConverged b \<and>
            toFract cfg T val Precision = Some (plus_int T (high b) (intPart cfg T val))) \<and>
         (\<not> dlt (testHigh (remainder cfg T val) b) Precision \<and>
          dlt (testLow (remainder cfg T val) b) Precision \<longrightarrow>
            loop_body cfg T (remainder cfg T val) Precision b
              = Break LowConverged (b\<lparr>high := low b\<rparr>) \<and>
            toFract cfg T val Precision = Some (plus_int T (low b) (intPart cfg T val)))"
proof (intro conjI impI)
  show "testLow (remainder cfg T val) b =
      dsub (dmul (dbl_of_int (denominator (low b))) (remainder cfg T val))
           (dbl_of_int (numerator (low b)))"
    by (simp add: testLow_def)
  show "testHigh (remainder cfg T val) b =
      dsub (dbl_of_int (numerator (high b)))
           (dmul (dbl_of_int (denominator (high b))) (remainder cfg T val))"
    by (simp add: testHigh_def)
next
  assume "dlt (testHigh (remainder cfg T val) b) Precision"
  then show h: "loop_body cfg T (remainder cfg T val) Precision b = Break HighConverged b"
    using assms(3) by (simp add: loop_body_def)
  show "toFract cfg T val Precision = Some (plus_int T (high b) (intPart cfg T val))"
    using toFract_from_visit [OF assms(1,2) h] .
next
  assume "\<not> dlt (testHigh (remainder cfg T val) b) Precision \<and>
    dlt (testLow (remainder cfg T val) b) Precision"
  then show l: "loop_body cfg T (remainder cfg T val) Precision b
      = Break LowConverged (b\<lparr>high := low b\<rparr>)"
    using assms(3) by (simp add: loop_body_def)
  show "toFract cfg T val Precision = Some (plus_int T (low b) (intPart cfg T val))"
    using toFract_from_visit [OF assms(1,2) l] by simp
qed

theorem precision_tests_in_order_witness:
  "toFract \<lparr>assertions = True, out_of_range = Indefinite\<rparr> Int64
      (Fin (9007199254740991 / 9007199254740992)) (Fin (1 / 4503599627370496))
     = Some (Inr \<lparr>numerator = 1, denominator = 1\<rparr>) \<and>
   toFract \<lparr>assertions = True, out_of_range = Indefinite\<rparr> Int64 (Fin 3) (Fin (1 / 4503599627370496))
     = Some (Inr \<lparr>numerator = 3, denominator = 1\<rparr>)"
proof -
  let ?cfg = "\<lparr>assertions = True, out_of_range = Indefinite\<rparr>"
  let ?P = "Fin (1 / 4503599627370496)"
  let ?v = "Fin (9007199254740991 / 9007199254740992)"
  have r1: "remainder ?cfg Int64 ?v = ?v" and i1: "intPart ?cfg Int64 ?v = 0"
    by (simp_all add: remainder_def intPart_def int_eval double_eval)
  have r2: "remainder ?cfg Int64 (Fin 3) = Fin 0" and i2: "intPart ?cfg Int64 (Fin 3) = 3"
    by (simp_all add: remainder_def intPart_def int_eval double_eval)
  have v1: "visits ?cfg Int64 (remainder ?cfg Int64 ?v) ?P initial"
    and v2: "visits ?cfg Int64 (remainder ?cfg Int64 (Fin 3)) ?P initial"
    by (rule visits.start)+
  have n1: "\<not> dgt (dabs (remainder ?cfg Int64 ?v)) (Fin 1)"
    and n2: "\<not> dgt (dabs (remainder ?cfg Int64 (Fin 3))) (Fin 1)"
    unfolding r1 r2 by (simp_all add: double_eval)
  have a1: "asserts_hold ?cfg (remainder ?cfg Int64 ?v) initial"
    and a2: "asserts_hold ?cfg (remainder ?cfg Int64 (Fin 3)) initial"
    unfolding r1 r2 by (simp_all add: body_eval double_eval)
  have t1: "dlt (testHigh (remainder ?cfg Int64 ?v) initial) ?P"
    unfolding r1 by (simp add: body_eval double_eval)
  have t2: "\<not> dlt (testHigh (remainder ?cfg Int64 (Fin 3)) initial) ?P \<and>
      dlt (testLow (remainder ?cfg Int64 (Fin 3)) initial) ?P"
    unfolding r2 by (simp add: body_eval double_eval)
  have "toFract ?cfg Int64 ?v ?P = Some (plus_int Int64 (high initial) 0)"
    using precision_tests_in_order [OF v1 n1 a1] t1 by (simp add: i1)
  moreover have "toFract ?cfg Int64 (Fin 3) ?P = Some (plus_int Int64 (low initial) 3)"
    using precision_tests_in_order [OF v2 n2 a2] t2 by (simp add: i2)
  ultimately show ?thesis by (simp add: initial_def int_eval)
qed

section \<open>The integer part and the range check\<close>

lemma trunc_bounds:
  "\<bar>v - of_int (trunc v)\<bar> < 1" "\<bar>of_int (trunc v) :: real\<bar> \<le> \<bar>v\<bar>"
proof -
  have f: "of_int \<lfloor>v\<rfloor> \<le> v" "v < of_int \<lfloor>v\<rfloor> + 1" by linarith+
  have c: "of_int \<lceil>v\<rceil> - 1 < v" "v \<le> of_int \<lceil>v\<rceil>" by linarith+
  define fl where "fl = \<lfloor>v\<rfloor>"
  define cl where "cl = \<lceil>v\<rceil>"
  note f = f [folded fl_def] and c = c [folded cl_def]
  have t: "trunc v = (if 0 \<le> v then fl else cl)" by (simp add: trunc_def fl_def cl_def)
  have fl0: "0 \<le> v \<Longrightarrow> 0 \<le> fl" by (simp add: fl_def)
  have cl0: "v < 0 \<Longrightarrow> cl \<le> 0" by (simp add: cl_def ceiling_le_iff)
  show "\<bar>v - of_int (trunc v)\<bar> < 1" using f c by (simp add: t)
  show "\<bar>of_int (trunc v) :: real\<bar> \<le> \<bar>v\<bar>"
  proof (cases "0 \<le> v")
    case True
    then have "(0::real) \<le> of_int fl" using fl0 by simp
    then show ?thesis using True f by (simp add: t)
  next
    case False
    then have "of_int cl \<le> (0::real)" using cl0 by simp
    then show ?thesis using False c by (simp add: t)
  qed
qed

lemma ilog2_pow2: "ilog2 (pow2 e) = e"
  by (rule ilog2_unique) (simp_all add: pow2_less_iff)

lemma double_large_int:
  assumes "is_double v" "2 ^ 52 \<le> \<bar>v\<bar>"
  shows "of_int (trunc v) = v"
proof -
  have "pow2 52 \<le> \<bar>v\<bar>" using assms(2) by (simp add: pow2_nat)
  then have "ilog2 (pow2 52) \<le> ilog2 \<bar>v\<bar>" by (intro ilog2_mono) (simp_all add: pow2_pos)
  then have "52 \<le> exponent v" by (simp add: ilog2_pow2 exponent_def)
  then have q: "quantum v = of_int (2 ^ nat (exponent v - 52))"
    by (simp add: quantum_def pow2_nat)
  have "v = rnd_val v" using assms(1) by (simp add: is_double_def)
  also have "\<dots> = of_int (round_even (v / quantum v) * 2 ^ nat (exponent v - 52))"
    unfolding rnd_val_def by (subst (2) q) (simp only: of_int_mult)
  finally obtain k where k: "v = of_int k" ..
  show ?thesis unfolding k by (simp add: trunc_def)
qed

lemma dbl_of_int_trunc:
  assumes "is_double v"
  shows "dbl_of_int (trunc v) = Fin (of_int (trunc v))"
proof (cases "2 ^ 52 \<le> \<bar>v\<bar>")
  case True
  then have "of_int (trunc v) = v" using assms by (intro double_large_int)
  then show ?thesis using assms by (simp add: dbl_of_int_def rnd_exact)
next
  case False
  then have "\<bar>of_int (trunc v) :: real\<bar> < 2 ^ 52" using trunc_bounds(2) [of v] by simp
  then have "\<bar>trunc v\<bar> < 2 ^ 52"
    by (metis of_int_abs of_int_less_iff of_int_numeral of_int_power)
  then show ?thesis by (intro dbl_of_int_exact) simp
qed

lemma to_int_type_in_range:
  "in_range T (trunc v) \<Longrightarrow> to_int_type cfg T (Fin v) = trunc v"
  by (simp add: to_int_type_def)

lemma is_double_1 [simp]: "is_double 1"
  using is_double_of_int [of 1] by simp

lemma dadd_Fin:
  "dadd (Fin a) (Fin b) = Fin 0 \<or> dadd (Fin a) (Fin b) = rnd (a + b)"
  by (simp add: dadd_def)

lemma finite_d_Fin [simp]: "finite_d (Fin a)"
  by (simp add: finite_d_def)

lemma remainder_small:
  assumes "is_double v" "in_range T (trunc v)"
  shows "finite_d (remainder cfg T (Fin v)) \<and> \<bar>fin_val (remainder cfg T (Fin v))\<bar> \<le> 1"
proof -
  define t where "t = trunc v"
  have i: "intPart cfg T (Fin v) = t"
    using assms(2) by (simp add: intPart_def to_int_type_in_range t_def)
  have d: "dbl_of_int t = Fin (of_int t)" unfolding t_def using assms(1) by (rule dbl_of_int_trunc)
  have small: "\<bar>v - of_int t\<bar> \<le> 1" using trunc_bounds(1) [of v] by (simp add: t_def)
  have r: "remainder cfg T (Fin v) = dadd (Fin v) (dneg (Fin (of_int t)))"
    by (simp add: remainder_def i d dsub_def)
  show ?thesis
  proof (cases "t = 0")
    case True
    then have "remainder cfg T (Fin v) = Fin v"
      using assms(1) by (simp add: r dadd_def rnd_exact)
    then show ?thesis using small True by simp
  next
    case False
    then have "remainder cfg T (Fin v) = Fin 0 \<or> remainder cfg T (Fin v) = rnd (v - of_int t)"
      using dadd_Fin [of v "- of_int t"] by (simp add: r)
    then show ?thesis
    proof
      assume "remainder cfg T (Fin v) = Fin 0"
      then show ?thesis by simp
    next
      assume "remainder cfg T (Fin v) = rnd (v - of_int t)"
      then show ?thesis using rnd_bounded(1,2) [OF small is_double_1] by simp
    qed
  qed
qed

lemma range_check_passes:
  assumes "finite_d r" "\<bar>fin_val r\<bar> \<le> 1"
  shows "\<not> dgt (dabs r) (Fin 1)"
  using assms by (cases r) (simp_all add: finite_d_def dgt_def dlt_def)

lemma step_errors:
  "step_x1 T n b \<noteq> Inl InvalidArgument" "step_x2 T n b \<noteq> Inl InvalidArgument"
  by (auto simp: step_x1_def step_x2_def and_then_def mul_add_def checked_def Fraction_def Let_def
      split: sum.splits if_splits)

lemma loop_body_not_invalid: "loop_body cfg T val Precision b \<noteq> Abort InvalidArgument"
  using step_errors [of T _ b]
  by (auto simp: loop_body_def after_step_def split: sum.splits)

lemma loop_not_invalid:
  assumes "loop cfg T val Precision b = Some r"
  shows "r \<noteq> Inl InvalidArgument"
proof -
  let ?Q = "\<lambda>(cfg::platform) (T::int_type) (val::double) (Precision::double) (b::bounds)
    (r :: error + exit_reason \<times> bounds). r \<noteq> Inl InvalidArgument"
  have "?Q cfg T val Precision b r"
  proof (rule loop.raw_induct [where P = ?Q, OF _ assms], goal_cases)
    case (1 loop' cfg T val Precision b r)
    then show ?case
      using loop_body_not_invalid [of cfg T val Precision b]
      by (cases "loop_body cfg T val Precision b") auto
  qed
  then show ?thesis .
qed

lemma plus_int_not_invalid: "plus_int T f i \<noteq> Inl InvalidArgument"
  by (auto simp: plus_int_def and_then_def mul_add_def checked_def split: sum.splits)

lemma toFract_invalid_iff:
  "toFract cfg T val Precision = Some (Inl InvalidArgument)
    \<longleftrightarrow> dgt (dabs (remainder cfg T val)) (Fin 1)"
  using loop_not_invalid [of cfg T "remainder cfg T val" Precision initial]
    plus_int_not_invalid [of T]
  by (auto simp: toFract_def search_def split: option.splits sum.splits)

text \<open>
  Claim C2, as amended. A value whose integer part, truncated towards zero, fits in
  \<^verbatim>\<open>int_type\<close> never raises the range error: that includes the value whose integer part is
  \<^verbatim>\<open>MaxValue\<close> itself. (The error can only come from a value whose conversion to
  \<^verbatim>\<open>int_type\<close> is undefined, and then depends on the number the conversion returns.)
\<close>

theorem in_range_never_raises:
  assumes "is_double v" "in_range T (trunc v)"
  shows "toFract cfg T (Fin v) Precision \<noteq> Some (Inl InvalidArgument)"
  using remainder_small [OF assms, of cfg] by (simp add: toFract_invalid_iff range_check_passes)

theorem in_range_never_raises_witness:
  "is_double 2147483646 \<and> in_range Int32 (trunc 2147483646) \<and>
   toFract \<lparr>assertions = True, out_of_range = Indefinite\<rparr> Int32 (Fin 2147483646)
     (Fin (1 / 4503599627370496)) \<noteq> Some (Inl InvalidArgument)"
proof -
  have d: "is_double 2147483646"
    using is_double_of_int [of 2147483646] by simp
  have r: "in_range Int32 (trunc 2147483646)"
    by (simp add: int_eval trunc_def)
  from in_range_never_raises [OF d r] d r show ?thesis by simp
qed

text \<open>The claim itself fails at the boundary: \<^verbatim>\<open>MaxValue\<close> fits, and is returned.\<close>

theorem max_value_does_not_raise:
  "trunc 2147483647 = MaxValue Int32 \<and>
   toFract \<lparr>assertions = True, out_of_range = Indefinite\<rparr> Int32 (Fin 2147483647)
     (Fin (1 / 4503599627370496)) = Some (Inr \<lparr>numerator = 2147483647, denominator = 1\<rparr>)"
  by (simp add: toFract_eval body_eval int_eval double_eval)


section \<open>A negative fractional part\<close>

lemma dadd_result_double:
  assumes "dadd a b = Fin x"
  shows "is_double x"
proof -
  have "a \<noteq> NaN" "b \<noteq> NaN" "\<not> is_inf a" "\<not> is_inf b"
    using assms by (auto simp: dadd_def split: if_splits)
  then have "Fin x = NegZero \<or> Fin x = Fin 0 \<or> Fin x = rnd (fin_val a + fin_val b)"
    using assms by (auto simp: dadd_def split: if_splits)
  then show ?thesis by (auto dest: rnd_is_double [OF sym])
qed

lemma remainder_double:
  assumes "remainder cfg T val = Fin x"
  shows "is_double x"
  using assms unfolding remainder_def dsub_def by (rule dadd_result_double)

lemma dmul_one:
  assumes "is_double x" "x \<noteq> 0"
  shows "dmul (Fin 1) (Fin x) = Fin x"
  using assms by (simp add: dmul_def rnd_exact)

lemma dsub_zero:
  assumes "is_double x" "x \<noteq> 0"
  shows "dsub (Fin x) (Fin 0) = Fin x"
  using assms by (simp add: dsub_def dadd_def rnd_exact)

lemma dbl_of_int_0 [simp]: "dbl_of_int 0 = Fin 0"
  using dbl_of_int_exact [of 0] by simp

lemma dbl_of_int_1 [simp]: "dbl_of_int 1 = Fin 1"
  using dbl_of_int_exact [of 1] by simp

lemma plus_int_whole:
  assumes "in_range T i"
  shows "plus_int T \<lparr>numerator = 0, denominator = 1\<rparr> i = Inr \<lparr>numerator = i, denominator = 1\<rparr>"
  using assms by (simp add: plus_int_def mul_add_def checked_def and_then_def)

text \<open>
  Claim C10, as amended. For a value in range whose fractional remainder is negative, and a
  precision in \<open>(0, 1]\<close>: the first pass finds \<open>testHigh = 1 - remainder \<ge> 1 \<ge> Precision\<close> and
  \<open>testLow = remainder < Precision\<close>, so with the assertions compiled out \<^verbatim>\<open>toFract\<close> returns
  \<open>intPart/1\<close> and drops the fractional part. With the assertions compiled in, the first one,
  \<^verbatim>\<open>assert(toFloat(low) <= val)\<close>, fails before any test is made.
\<close>

theorem negative_remainder:
  assumes "is_double v" and "in_range T (trunc v)"
    and "remainder cfg T (Fin v) = Fin x" and "x < 0"
    and "0 < p" and "p \<le> 1"
  shows "toFract cfg T (Fin v) (Fin p) =
    Some (if assertions cfg then Inl AssertionFailed
          else Inr \<lparr>numerator = trunc v, denominator = 1\<rparr>)"
proof -
  have dx: "is_double x" using assms(3) by (rule remainder_double)
  have x0: "x \<noteq> 0" using assms(4) by simp
  have i: "intPart cfg T (Fin v) = trunc v"
    using assms(2) by (simp add: intPart_def to_int_type_in_range)
  have nothrow: "\<not> dgt (dabs (remainder cfg T (Fin v))) (Fin 1)"
    using remainder_small [OF assms(1,2), of cfg] by (simp add: range_check_passes)
  have v: "visits cfg T (remainder cfg T (Fin v)) (Fin p) initial" by (rule visits.start)
  show ?thesis
  proof (cases "assertions cfg")
    case True
    have "toFloat (low initial) = Fin 0"
      by (simp add: toFloat_def initial_def ddiv_def signed_zero_def)
    then have "\<not> asserts_hold cfg (Fin x) initial"
      using True assms(4) by (simp add: asserts_hold_def dle_def)
    then have "loop_body cfg T (Fin x) (Fin p) initial = Abort AssertionFailed"
      by (simp add: loop_body_def)
    then have "loop cfg T (Fin x) (Fin p) initial = Some (Inl AssertionFailed)"
      by (rule loop_Abort)
    then show ?thesis using True nothrow by (simp add: toFract_def search_def assms(3))
  next
    case False
    have tl: "testLow (Fin x) initial = Fin x"
      by (simp add: testLow_def initial_def dmul_one [OF dx x0] dsub_zero [OF dx x0])
    have "testHigh (Fin x) initial = rnd (1 - x)"
      using assms(4) by (simp add: testHigh_def initial_def dmul_one [OF dx x0] dsub_def dadd_def)
    moreover have "rnd (1 - x) = PInf \<or> (\<exists>w. rnd (1 - x) = Fin w \<and> 1 \<le> w)"
      using assms(4) by (intro rnd_mono_ge) simp_all
    ultimately have th: "\<not> dlt (testHigh (Fin x) initial) (Fin p)"
      using assms(6) by (auto simp: dlt_def)
    have "dlt (testLow (Fin x) initial) (Fin p)"
      using assms(4,5) by (simp add: tl dlt_def)
    with th have "loop_body cfg T (Fin x) (Fin p) initial
        = Break LowConverged (initial\<lparr>high := low initial\<rparr>)"
      using False by (simp add: loop_body_def asserts_hold_def)
    then have "loop_body cfg T (remainder cfg T (Fin v)) (Fin p) initial
        = Break LowConverged (initial\<lparr>high := low initial\<rparr>)"
      by (simp add: assms(3))
    from toFract_from_visit [OF v nothrow this]
    show ?thesis using False assms(2) by (simp add: i initial_def plus_int_whole)
  qed
qed

theorem negative_remainder_witness:
  "toFract \<lparr>assertions = False, out_of_range = Indefinite\<rparr> Int64 (Fin (- (5 / 2)))
      (Fin (1 / 4503599627370496)) = Some (Inr \<lparr>numerator = - 2, denominator = 1\<rparr>)"
proof -
  let ?cfg = "\<lparr>assertions = False, out_of_range = Indefinite\<rparr>"
  have d: "is_double (- (5 / 2))"
    by (simp add: is_double_def double_eval)
  have t: "trunc (- (5 / 2)) = - 2"
    by (simp add: trunc_def)
  have r: "in_range Int64 (trunc (- (5 / 2)))"
    unfolding t by (simp add: int_eval)
  have x: "remainder ?cfg Int64 (Fin (- (5 / 2))) = Fin (- (1 / 2))"
    by (simp add: remainder_def intPart_def int_eval double_eval)
  from negative_remainder [OF d r x, of "1 / 4503599627370496"]
  show ?thesis by (simp add: t)
qed

text \<open>The claim as stated, that the function returns, fails where assertions are compiled in.\<close>

theorem negative_remainder_asserts:
  "remainder \<lparr>assertions = True, out_of_range = Indefinite\<rparr> Int64 (Fin (- (5 / 2)))
     = Fin (- (1 / 2)) \<and>
   toFract \<lparr>assertions = True, out_of_range = Indefinite\<rparr> Int64 (Fin (- (5 / 2)))
      (Fin (1 / 4503599627370496)) = Some (Inl AssertionFailed)"
  by (simp add: toFract_eval body_eval int_eval double_eval)


section \<open>A pass of the loop under a positive precision\<close>

subsection \<open>Bounded doubles\<close>

lemma bounded_rnd:
  assumes "\<bar>s\<bar> \<le> B" "is_double B"
  shows "bounded B (rnd s)"
  using rnd_bounded(1,2) [OF assms] by (simp add: bounded_def)

lemma bounded_Fin [simp]: "bounded B (Fin a) \<longleftrightarrow> \<bar>a\<bar> \<le> B"
  by (simp add: bounded_def)

lemma bounded_nonneg: "bounded B x \<Longrightarrow> 0 \<le> B"
  by (auto simp: bounded_def)

lemma bounded_cases:
  assumes "bounded B x"
  obtains "x = NegZero" | a where "x = Fin a" "\<bar>a\<bar> \<le> B"
  using assms by (cases x) (auto simp: bounded_def finite_d_def)

lemma bounded_NegZero [simp]: "bounded B NegZero \<longleftrightarrow> 0 \<le> B"
  by (simp add: bounded_def finite_d_def)

lemma bounded_signed_zero [simp]: "bounded B (signed_zero s) \<longleftrightarrow> 0 \<le> B"
  by (simp add: signed_zero_def)

lemma in_range_abs: "in_range T i \<Longrightarrow> \<bar>i\<bar> \<le> 2 ^ 63"
  by (cases T) (auto simp: in_range_def MaxValue_def MinValue_def)

lemma bounded_dbl_of_int:
  assumes "in_range T i"
  shows "bounded (2 ^ 63) (dbl_of_int i)"
proof -
  have "\<bar>i\<bar> \<le> 2 ^ 63" using assms by (rule in_range_abs)
  then have "\<bar>of_int i :: real\<bar> \<le> of_int (2 ^ 63)"
    by (metis of_int_abs of_int_le_iff)
  then have "\<bar>of_int i :: real\<bar> \<le> 2 ^ 63" by simp
  then show ?thesis unfolding dbl_of_int_def by (intro bounded_rnd is_double_power2) simp_all
qed

lemma bounded_dneg: "bounded B x \<Longrightarrow> bounded B (dneg x)"
  by (cases x) (auto simp: bounded_def finite_d_def)

lemma bounded_dmul:
  assumes "bounded A x" "bounded B y" "is_double (A * B)"
  shows "bounded (A * B) (dmul x y)"
proof -
  have AB: "0 \<le> A * B" using assms(1,2) by (simp add: bounded_nonneg)
  have m: "\<bar>a * b\<bar> \<le> A * B" if "\<bar>a\<bar> \<le> A" "\<bar>b\<bar> \<le> B" for a b
    using that by (simp add: abs_mult mult_mono)
  show ?thesis
    using assms(1,2)
    by (elim bounded_cases) (auto simp: dmul_def AB intro!: bounded_rnd m assms(3))
qed

lemma bounded_dadd:
  assumes "bounded A x" "bounded B y" "is_double (A + B)"
  shows "bounded (A + B) (dadd x y)"
proof -
  have AB: "0 \<le> A + B" using assms(1,2) by (simp add: bounded_nonneg)
  have m: "\<bar>a + b\<bar> \<le> A + B" if "\<bar>a\<bar> \<le> A" "\<bar>b\<bar> \<le> B" for a b :: real
    using that by linarith
  have A: "0 \<le> A" and B: "0 \<le> B" using assms(1,2) by (auto dest: bounded_nonneg)
  show ?thesis
    using assms(1,2)
  proof (elim bounded_cases, goal_cases)
    case 1
    then show ?case using AB by (simp add: dadd_def)
  next
    case (2 b)
    then have "\<bar>0 + b\<bar> \<le> A + B" using A by linarith
    then show ?case using 2 AB by (auto simp: dadd_def intro!: bounded_rnd assms(3))
  next
    case (3 a)
    then have "\<bar>a + 0\<bar> \<le> A + B" using B by linarith
    then show ?case using 3 AB by (auto simp: dadd_def intro!: bounded_rnd assms(3))
  next
    case (4 a b)
    then show ?case using AB by (auto simp: dadd_def intro!: bounded_rnd assms(3) m)
  qed
qed

lemma bounded_dsub:
  assumes "bounded A x" "bounded B y" "is_double (A + B)"
  shows "bounded (A + B) (dsub x y)"
  unfolding dsub_def using assms by (intro bounded_dadd bounded_dneg)

lemma is_double_2p63 [simp]: "is_double 9223372036854775808"
  using is_double_power2 [of 63] by simp

lemma is_double_2p64 [simp]: "is_double 18446744073709551616"
  using is_double_power2 [of 64] by simp

lemma tests_bounded:
  assumes "neighbours T b" "bounded 1 r"
  shows "bounded (2 ^ 64) (testLow r b)" "bounded (2 ^ 64) (testHigh r b)"
proof -
  have n: "in_range T (numerator (low b))" "in_range T (denominator (low b))"
      "in_range T (numerator (high b))" "in_range T (denominator (high b))"
    using assms(1) by (simp_all add: neighbours_def)
  have i: "bounded (2 ^ 63) (dbl_of_int i)" if "in_range T i" for i
    using that by (rule bounded_dbl_of_int)
  have p: "bounded (2 ^ 63 * 1) (dmul (dbl_of_int i) r)" if "in_range T i" for i
    using i [OF that] assms(2) by (rule bounded_dmul) simp
  have "bounded (2 ^ 63 * 1 + 2 ^ 63) (testLow r b)"
    unfolding testLow_def using p [OF n(2)] i [OF n(1)] by (rule bounded_dsub) simp
  then show "bounded (2 ^ 64) (testLow r b)" by simp
  have "bounded (2 ^ 63 + 2 ^ 63 * 1) (testHigh r b)"
    unfolding testHigh_def using i [OF n(3)] p [OF n(4)] by (rule bounded_dsub) simp
  then show "bounded (2 ^ 64) (testHigh r b)" by simp
qed

lemma not_dlt_positive:
  assumes "bounded B t" "\<not> dlt t (Fin p)" "0 < p"
  obtains a where "t = Fin a" "p \<le> a"
  using assms by (elim bounded_cases) (auto simp: dlt_def)

lemma ddiv_positive:
  assumes "0 < a" "0 < b"
  shows "ddiv (Fin a) (Fin b) = rnd (a / b)" "at_least 0 (ddiv (Fin a) (Fin b))"
proof -
  show e: "ddiv (Fin a) (Fin b) = rnd (a / b)" using assms by (simp add: ddiv_def)
  have "0 \<le> a / b" using assms by simp
  from rnd_nonneg [OF this] show "at_least 0 (ddiv (Fin a) (Fin b))"
    by (simp add: e at_least_def)
qed


subsection \<open>The safety check bounds the multiplier\<close>

lemma at_least_PInf [simp]: "at_least M PInf"
  by (simp add: at_least_def)

lemma at_least_Fin [simp]: "at_least M (Fin a) \<longleftrightarrow> M \<le> a"
  by (simp add: at_least_def)

lemma at_least_rnd:
  assumes "M \<le> s" "is_double M" "0 < M"
  shows "at_least M (rnd s)"
  using rnd_mono_ge [OF assms] by (auto simp: at_least_def)

lemma at_least_cases:
  assumes "at_least M x"
  obtains "x = PInf" | a where "x = Fin a" "M \<le> a"
  using assms by (auto simp: at_least_def)

lemma at_least_dadd:
  assumes "at_least M x" "at_least 1 y" "is_double M" "0 < M"
  shows "at_least M (dadd x y)" "at_least M (dadd y x)"
proof -
  show "at_least M (dadd x y)"
    using assms(1,2)
  proof (elim at_least_cases, goal_cases)
    case (4 a b)
    then have "M \<le> a + b" "a + b \<noteq> 0" "a \<noteq> 0" using assms(4) by simp_all
    then show ?case using 4 by (simp add: dadd_def at_least_rnd assms(3,4))
  qed (simp_all add: dadd_def)
  show "at_least M (dadd y x)"
    using assms(1,2)
  proof (elim at_least_cases, goal_cases)
    case (4 a b)
    then have "M \<le> b + a" "b + a \<noteq> 0" "a \<noteq> 0" using assms(4) by simp_all
    then show ?case using 4 by (simp add: dadd_def at_least_rnd assms(3,4))
  qed (simp_all add: dadd_def)
qed

lemma at_least_dmul:
  assumes "at_least M x" "at_least 1 y" "is_double M" "0 < M"
  shows "at_least M (dmul x y)"
  using assms(1,2)
proof (elim at_least_cases, goal_cases)
  case 1
  then show ?case by (simp add: dmul_def signed_inf_def)
next
  case (2 b)
  then show ?case by (simp add: dmul_def signed_inf_def)
next
  case (3 a)
  then show ?case using assms(4) by (simp add: dmul_def signed_inf_def)
next
  case (4 a b)
  have "M * 1 \<le> a * b" using 4 assms(4) by (intro mult_mono) simp_all
  then show ?case using 4 assms(4) by (simp add: dmul_def at_least_rnd assms(3))
qed

lemma at_least_dbl_of_int:
  assumes "1 \<le> i"
  shows "at_least 1 (dbl_of_int i)"
proof -
  have "(1::real) \<le> of_int i" using assms by simp
  then show ?thesis unfolding dbl_of_int_def by (intro at_least_rnd) simp_all
qed

lemma MaxValue_eq: "of_int (MaxValue T) = (2 :: real) ^ (bits T - 1) - 1"
  by (simp add: MaxValue_def)

lemma bits_cases: "bits T - 1 = 31 \<or> bits T - 1 = 63"
  by (cases T) simp_all

lemma dbl_MaxValue:
  obtains m where "dbl_of_int (MaxValue T) = Fin m" "m \<le> 2 ^ (bits T - 1)"
proof -
  have "bits T - 1 < 1024" using bits_cases [of T] by auto
  then have d: "is_double (2 ^ (bits T - 1))" by (rule is_double_power2)
  have "(1::real) \<le> 2 ^ (bits T - 1)" by simp
  then have "0 \<le> (2::real) ^ (bits T - 1) - 1" by simp
  from rnd_mono_le [OF _ d this]
  obtain w where "rnd (2 ^ (bits T - 1) - 1) = Fin w" "w \<le> 2 ^ (bits T - 1)" by auto
  then show ?thesis using that by (simp add: dbl_of_int_def MaxValue_eq)
qed

lemma at_least_out_of_bounds:
  assumes "at_least (2 ^ (bits T - 1)) x"
  shows "dge x (dbl_of_int (MaxValue T))"
proof -
  obtain m where m: "dbl_of_int (MaxValue T) = Fin m" "m \<le> 2 ^ (bits T - 1)"
    by (rule dbl_MaxValue)
  show ?thesis using assms m
    by (elim at_least_cases) (simp_all add: dge_def dle_def)
qed

lemma guard_x1:
  assumes "at_least (2 ^ (bits T - 1)) (x1 r b)"
    and "1 \<le> denominator (low b)" "1 \<le> denominator (high b)"
  shows "out_of_bounds_x1 T r b"
proof -
  have "bits T - 1 < 1024" using bits_cases [of T] by auto
  then have d: "is_double (2 ^ (bits T - 1))" by (rule is_double_power2)
  have p: "(0::real) < 2 ^ (bits T - 1)" by simp
  have "at_least (2 ^ (bits T - 1)) (dadd (x1 r b) (Fin 1))"
    using assms(1) d p by (intro at_least_dadd) simp_all
  then have "at_least (2 ^ (bits T - 1))
      (dmul (dadd (x1 r b) (Fin 1)) (dbl_of_int (denominator (low b))))"
    using assms(2) d p by (intro at_least_dmul at_least_dbl_of_int)
  then have "at_least (2 ^ (bits T - 1))
      (dadd (dmul (dadd (x1 r b) (Fin 1)) (dbl_of_int (denominator (low b))))
            (dbl_of_int (denominator (high b))))"
    using assms(3) d p by (intro at_least_dadd at_least_dbl_of_int)
  then show ?thesis unfolding out_of_bounds_x1_def by (rule at_least_out_of_bounds)
qed

lemma guard_x2:
  assumes "at_least (2 ^ (bits T - 1)) (x2 r b)"
    and "1 \<le> denominator (low b)" "1 \<le> denominator (high b)"
  shows "out_of_bounds_x2 T r b"
proof -
  have "bits T - 1 < 1024" using bits_cases [of T] by auto
  then have d: "is_double (2 ^ (bits T - 1))" by (rule is_double_power2)
  have p: "(0::real) < 2 ^ (bits T - 1)" by simp
  have "at_least (2 ^ (bits T - 1)) (dadd (x2 r b) (Fin 1))"
    using assms(1) d p by (intro at_least_dadd) simp_all
  then have "at_least (2 ^ (bits T - 1))
      (dmul (dadd (x2 r b) (Fin 1)) (dbl_of_int (denominator (high b))))"
    using assms(3) d p by (intro at_least_dmul at_least_dbl_of_int)
  then have "at_least (2 ^ (bits T - 1))
      (dadd (dbl_of_int (denominator (low b)))
            (dmul (dadd (x2 r b) (Fin 1)) (dbl_of_int (denominator (high b)))))"
    using assms(2) d p by (intro at_least_dadd at_least_dbl_of_int)
  then show ?thesis unfolding out_of_bounds_x2_def by (rule at_least_out_of_bounds)
qed

text \<open>A quotient of positive tests that passes the safety check converts to its floor.\<close>

lemma multiplier_floor:
  assumes "at_least 0 x" "\<not> at_least (2 ^ (bits T - 1)) x"
  obtains v where "x = Fin v" "0 \<le> v" "to_int_type cfg T (Fin v) = \<lfloor>v\<rfloor>"
proof -
  from assms obtain v where v: "x = Fin v" "0 \<le> v" "v < 2 ^ (bits T - 1)"
    by (auto simp: at_least_def)
  have f0: "0 \<le> \<lfloor>v\<rfloor>" using v(2) by simp
  have "\<lfloor>v\<rfloor> < 2 ^ (bits T - 1)" using v(3) by (simp add: floor_less_iff)
  moreover have "- (2 ^ (bits T - 1)) \<le> (0::int)" by simp
  ultimately have "in_range T \<lfloor>v\<rfloor>"
    using f0 unfolding in_range_def MaxValue_def MinValue_def by linarith
  then have "to_int_type cfg T (Fin v) = \<lfloor>v\<rfloor>"
    using v(2) by (simp add: to_int_type_def trunc_def)
  with v show ?thesis using that by simp
qed


subsection \<open>The update keeps the bounds neighbours\<close>

lemma Fraction_coprime:
  assumes "0 < d" "gcd n d = 1"
  shows "Fraction T n d = Inr \<lparr>numerator = n, denominator = d\<rparr>"
proof (cases "n = 0")
  case True
  then have "d = 1" using assms by simp
  then show ?thesis using True by (simp add: Fraction_def)
next
  case False
  have "0 \<le> MaxValue T" by (cases T) (simp_all add: MaxValue_def)
  then show ?thesis using False assms by (simp add: Fraction_def)
qed

lemma det_coprime:
  fixes a b c d :: int
  assumes "a * d - b * c = 1"
  shows "gcd a c = 1" "gcd b d = 1"
proof -
  have "gcd a c dvd a * d - b * c" by (simp add: dvd_diff)
  then show "gcd a c = 1" using assms by simp
  have "gcd b d dvd a * d - b * c" by (simp add: dvd_diff)
  then show "gcd b d = 1" using assms by simp
qed

lemma step_x1_neighbours:
  assumes "step_x1 T n b = Inr b'" "neighbours T b" "0 \<le> n"
  shows "b' = \<lparr>low = \<lparr>numerator = n * numerator (low b) + numerator (high b) + numerator (low b),
                      denominator = n * denominator (low b) + denominator (high b) + denominator (low b)\<rparr>,
               high = \<lparr>numerator = n * numerator (low b) + numerator (high b),
                       denominator = n * denominator (low b) + denominator (high b)\<rparr>\<rparr>"
    and "neighbours T b'"
proof -
  define ln ld hn hd where "ln = numerator (low b)" and "ld = denominator (low b)"
    and "hn = numerator (high b)" and "hd = denominator (high b)"
  note d = ln_def [symmetric] ld_def [symmetric] hn_def [symmetric] hd_def [symmetric]
  have nb: "1 \<le> ld" "1 \<le> hd" "hn * ld - ln * hd = 1"
    using assms(2) by (simp_all add: neighbours_def d)
  from assms(1) obtain l h where
    r: "in_range T (n * ln + hn)" "in_range T (n * ld + hd)"
       "in_range T (n * ln + hn + ln)" "in_range T (n * ld + hd + ld)"
    and l: "Fraction T (n * ln + hn + ln) (n * ld + hd + ld) = Inr l"
    and h: "Fraction T (n * ln + hn) (n * ld + hd) = Inr h"
    and b': "b' = \<lparr>low = l, high = h\<rparr>"
    by (auto simp: step_x1_def and_then_Inr mul_add_Inr checked_Inr d)
  have "0 \<le> n * ld" using assms(3) nb(1) by simp
  then have pos: "1 \<le> n * ld + hd" "1 \<le> n * ld + hd + ld" using nb(1,2) by simp_all
  have det: "(n * ln + hn) * (n * ld + hd + ld) - (n * ln + hn + ln) * (n * ld + hd) = 1"
    using nb(3) by (simp add: algebra_simps)
  note co = det_coprime [OF det]
  have "l = \<lparr>numerator = n * ln + hn + ln, denominator = n * ld + hd + ld\<rparr>"
    using l pos co by (simp add: Fraction_coprime)
  moreover have "h = \<lparr>numerator = n * ln + hn, denominator = n * ld + hd\<rparr>"
    using h pos co by (simp add: Fraction_coprime)
  ultimately show e: "b' = \<lparr>low = \<lparr>numerator = n * numerator (low b) + numerator (high b) + numerator (low b),
                      denominator = n * denominator (low b) + denominator (high b) + denominator (low b)\<rparr>,
               high = \<lparr>numerator = n * numerator (low b) + numerator (high b),
                       denominator = n * denominator (low b) + denominator (high b)\<rparr>\<rparr>"
    by (simp add: b' d)
  show "neighbours T b'"
    unfolding e d neighbours_def using r pos det
    by (simp only: bounds.select_convs fraction.select_convs)
qed

lemma step_x2_neighbours:
  assumes "step_x2 T n b = Inr b'" "neighbours T b" "0 \<le> n"
  shows "b' = \<lparr>low = \<lparr>numerator = n * numerator (high b) + numerator (low b),
                      denominator = n * denominator (high b) + denominator (low b)\<rparr>,
               high = \<lparr>numerator = n * numerator (high b) + numerator (low b) + numerator (high b),
                       denominator = n * denominator (high b) + denominator (low b) + denominator (high b)\<rparr>\<rparr>"
    and "neighbours T b'"
proof -
  define ln ld hn hd where "ln = numerator (low b)" and "ld = denominator (low b)"
    and "hn = numerator (high b)" and "hd = denominator (high b)"
  note d = ln_def [symmetric] ld_def [symmetric] hn_def [symmetric] hd_def [symmetric]
  have nb: "1 \<le> ld" "1 \<le> hd" "hn * ld - ln * hd = 1"
    using assms(2) by (simp_all add: neighbours_def d)
  from assms(1) obtain l h where
    r: "in_range T (n * hn + ln)" "in_range T (n * hd + ld)"
       "in_range T (n * hn + ln + hn)" "in_range T (n * hd + ld + hd)"
    and h: "Fraction T (n * hn + ln + hn) (n * hd + ld + hd) = Inr h"
    and l: "Fraction T (n * hn + ln) (n * hd + ld) = Inr l"
    and b': "b' = \<lparr>low = l, high = h\<rparr>"
    by (auto simp: step_x2_def and_then_Inr mul_add_Inr checked_Inr d)
  have "0 \<le> n * hd" using assms(3) nb(2) by simp
  then have pos: "1 \<le> n * hd + ld" "1 \<le> n * hd + ld + hd" using nb(1,2) by simp_all
  have det: "(n * hn + ln + hn) * (n * hd + ld) - (n * hn + ln) * (n * hd + ld + hd) = 1"
    using nb(3) by (simp add: algebra_simps)
  note co = det_coprime [OF det]
  have "l = \<lparr>numerator = n * hn + ln, denominator = n * hd + ld\<rparr>"
    using l pos co by (simp add: Fraction_coprime)
  moreover have "h = \<lparr>numerator = n * hn + ln + hn, denominator = n * hd + ld + hd\<rparr>"
    using h pos co by (simp add: Fraction_coprime)
  ultimately show e: "b' = \<lparr>low = \<lparr>numerator = n * numerator (high b) + numerator (low b),
                      denominator = n * denominator (high b) + denominator (low b)\<rparr>,
               high = \<lparr>numerator = n * numerator (high b) + numerator (low b) + numerator (high b),
                       denominator = n * denominator (high b) + denominator (low b) + denominator (high b)\<rparr>\<rparr>"
    by (simp add: b' d)
  show "neighbours T b'"
    unfolding e d neighbours_def using r pos det
    by (simp only: bounds.select_convs fraction.select_convs)
qed

subsection \<open>What a pass that continues has done\<close>

lemma positive_pass:
  assumes "loop_body cfg T r (Fin p) b = Continue b'" "neighbours T b" "bounded 1 r" "0 < p"
  obtains v1 v2 where "x1 r b = Fin v1" "x2 r b = Fin v2" "0 \<le> v1" "0 \<le> v2"
    "if v2 < v1 then step_x1 T \<lfloor>v1\<rfloor> b = Inr b' else step_x2 T \<lfloor>v2\<rfloor> b = Inr b'"
proof -
  have dens: "1 \<le> denominator (low b)" "1 \<le> denominator (high b)"
    using assms(2) by (simp_all add: neighbours_def)
  from assms(1) have nt: "\<not> dlt (testHigh r b) (Fin p)" "\<not> dlt (testLow r b) (Fin p)"
    by (auto simp: loop_body_def split: if_splits)
  from tests_bounded(2) [OF assms(2,3)] nt(1) assms(4)
  obtain a where a: "testHigh r b = Fin a" "p \<le> a" by (rule not_dlt_positive)
  from tests_bounded(1) [OF assms(2,3)] nt(2) assms(4)
  obtain c where c: "testLow r b = Fin c" "p \<le> c" by (rule not_dlt_positive)
  have pos: "0 < a" "0 < c" using a c assms(4) by simp_all
  have al1: "at_least 0 (x1 r b)" unfolding x1_def a c using pos by (intro ddiv_positive)
  have al2: "at_least 0 (x2 r b)" unfolding x2_def a c using pos by (intro ddiv_positive)
  show ?thesis
  proof (cases "dgt (x1 r b) (x2 r b)")
    case True
    with assms(1) nt have g: "\<not> out_of_bounds_x1 T r b"
      and s: "after_step cfg r (step_x1 T (to_int_type cfg T (x1 r b)) b) = Continue b'"
      by (auto simp: loop_body_def split: if_splits)
    have "\<not> at_least (2 ^ (bits T - 1)) (x1 r b)" using g guard_x1 [OF _ dens] by blast
    with al1 obtain v1 where v1: "x1 r b = Fin v1" "0 \<le> v1" "to_int_type cfg T (Fin v1) = \<lfloor>v1\<rfloor>"
      by (rule multiplier_floor)
    from al2 True obtain v2 where v2: "x2 r b = Fin v2" "0 \<le> v2" "v2 < v1"
      by (auto simp: at_least_def v1 dgt_def dlt_def)
    from s have "step_x1 T \<lfloor>v1\<rfloor> b = Inr b'" by (simp add: after_step_Continue v1)
    then have "if v2 < v1 then step_x1 T \<lfloor>v1\<rfloor> b = Inr b' else step_x2 T \<lfloor>v2\<rfloor> b = Inr b'"
      using v2(3) by simp
    with v1(1) v2(1) v1(2) v2(2) show ?thesis by (rule that)
  next
    case False
    with assms(1) nt have g: "\<not> out_of_bounds_x2 T r b"
      and s: "after_step cfg r (step_x2 T (to_int_type cfg T (x2 r b)) b) = Continue b'"
      by (auto simp: loop_body_def split: if_splits)
    have "\<not> at_least (2 ^ (bits T - 1)) (x2 r b)" using g guard_x2 [OF _ dens] by blast
    with al2 obtain v2 where v2: "x2 r b = Fin v2" "0 \<le> v2" "to_int_type cfg T (Fin v2) = \<lfloor>v2\<rfloor>"
      by (rule multiplier_floor)
    from al1 False obtain v1 where v1: "x1 r b = Fin v1" "0 \<le> v1" "\<not> v2 < v1"
      by (auto simp: at_least_def v2 dgt_def dlt_def)
    from s have "step_x2 T \<lfloor>v2\<rfloor> b = Inr b'" by (simp add: after_step_Continue v2)
    then have "if v2 < v1 then step_x1 T \<lfloor>v1\<rfloor> b = Inr b' else step_x2 T \<lfloor>v2\<rfloor> b = Inr b'"
      using v1(3) by simp
    with v1(1) v2(1) v1(2) v2(2) show ?thesis by (rule that)
  qed
qed

lemma neighbours_initial: "neighbours T initial"
  by (cases T) (simp_all add: neighbours_def initial_def in_range_def MaxValue_def MinValue_def)

lemma positive_pass_neighbours:
  assumes "loop_body cfg T r (Fin p) b = Continue b'" "neighbours T b" "bounded 1 r" "0 < p"
  shows "neighbours T b'"
proof -
  from assms obtain v1 v2 where
    x: "x1 r b = Fin v1" "x2 r b = Fin v2" and v: "0 \<le> v1" "0 \<le> v2"
    and s: "if v2 < v1 then step_x1 T \<lfloor>v1\<rfloor> b = Inr b' else step_x2 T \<lfloor>v2\<rfloor> b = Inr b'"
    by (rule positive_pass)
  show ?thesis
  proof (cases "v2 < v1")
    case True
    with s have st: "step_x1 T \<lfloor>v1\<rfloor> b = Inr b'" by simp
    have "0 \<le> \<lfloor>v1\<rfloor>" using v(1) by simp
    from step_x1_neighbours(2) [OF st assms(2) this] show ?thesis .
  next
    case False
    with s have st: "step_x2 T \<lfloor>v2\<rfloor> b = Inr b'" by simp
    have "0 \<le> \<lfloor>v2\<rfloor>" using v(2) by simp
    from step_x2_neighbours(2) [OF st assms(2) this] show ?thesis .
  qed
qed

lemma visits_neighbours:
  assumes "visits cfg T r (Fin p) b" "bounded 1 r" "0 < p"
  shows "neighbours T b"
  using assms
proof induction
  case start
  show ?case by (rule neighbours_initial)
next
  case (pass b b')
  then show ?case by (intro positive_pass_neighbours [of cfg T r p b b']) simp_all
qed


section \<open>The mediant update\<close>

lemma bounded_quarter [simp]: "bounded 1 (Fin (1 / 4))"
  by simp

text \<open>
  Claim C7. In a pass that continues, under a positive precision (so that both tests are
  positive), with \<open>x1 = testHigh / testLow\<close> and \<open>x2 = testLow / testHigh\<close>: the multiplier is
  \<open>n = \<lfloor>max x1 x2\<rfloor>\<close>; if \<open>x1 > x2\<close> the new \<open>high\<close> is
  \<open>(n * low.numerator + high.numerator) / (n * low.denominator + high.denominator)\<close> and the
  new \<open>low\<close> is that plus the old \<open>low\<close>, numerator to numerator and denominator to
  denominator; otherwise the same with \<open>low\<close> and \<open>high\<close> exchanged.
\<close>

theorem mediant_update:
  assumes "visits cfg T r (Fin p) b" and "bounded 1 r" and "0 < p"
    and "loop_body cfg T r (Fin p) b = Continue b'"
  shows "\<exists>v1 v2 n.
     ddiv (testHigh r b) (testLow r b) = Fin v1 \<and> ddiv (testLow r b) (testHigh r b) = Fin v2 \<and>
     n = \<lfloor>max v1 v2\<rfloor> \<and>
     (if v2 < v1
      then high b' = \<lparr>numerator = n * numerator (low b) + numerator (high b),
                       denominator = n * denominator (low b) + denominator (high b)\<rparr> \<and>
           low b' = \<lparr>numerator = numerator (high b') + numerator (low b),
                      denominator = denominator (high b') + denominator (low b)\<rparr>
      else low b' = \<lparr>numerator = n * numerator (high b) + numerator (low b),
                      denominator = n * denominator (high b) + denominator (low b)\<rparr> \<and>
           high b' = \<lparr>numerator = numerator (low b') + numerator (high b),
                       denominator = denominator (low b') + denominator (high b)\<rparr>)"
proof -
  have nb: "neighbours T b" using assms(1-3) by (rule visits_neighbours)
  from assms(4) nb assms(2,3) obtain v1 v2 where
    x: "x1 r b = Fin v1" "x2 r b = Fin v2" and v: "0 \<le> v1" "0 \<le> v2"
    and s: "if v2 < v1 then step_x1 T \<lfloor>v1\<rfloor> b = Inr b' else step_x2 T \<lfloor>v2\<rfloor> b = Inr b'"
    by (rule positive_pass)
  have q: "ddiv (testHigh r b) (testLow r b) = Fin v1" "ddiv (testLow r b) (testHigh r b) = Fin v2"
    using x by (simp_all add: x1_def x2_def)
  show ?thesis
  proof (cases "v2 < v1")
    case True
    then have m: "\<lfloor>max v1 v2\<rfloor> = \<lfloor>v1\<rfloor>" by (simp add: max_def)
    from True s have st: "step_x1 T \<lfloor>v1\<rfloor> b = Inr b'" by simp
    have "0 \<le> \<lfloor>v1\<rfloor>" using v(1) by simp
    from step_x1_neighbours(1) [OF st nb this] have
      "high b' = \<lparr>numerator = \<lfloor>v1\<rfloor> * numerator (low b) + numerator (high b),
                   denominator = \<lfloor>v1\<rfloor> * denominator (low b) + denominator (high b)\<rparr> \<and>
       low b' = \<lparr>numerator = numerator (high b') + numerator (low b),
                  denominator = denominator (high b') + denominator (low b)\<rparr>"
      by simp
    with True q m show ?thesis by simp
  next
    case False
    then have m: "\<lfloor>max v1 v2\<rfloor> = \<lfloor>v2\<rfloor>" by (simp add: max_def)
    from False s have st: "step_x2 T \<lfloor>v2\<rfloor> b = Inr b'" by simp
    have "0 \<le> \<lfloor>v2\<rfloor>" using v(2) by simp
    from step_x2_neighbours(1) [OF st nb this] have
      "low b' = \<lparr>numerator = \<lfloor>v2\<rfloor> * numerator (high b) + numerator (low b),
                  denominator = \<lfloor>v2\<rfloor> * denominator (high b) + denominator (low b)\<rparr> \<and>
       high b' = \<lparr>numerator = numerator (low b') + numerator (high b),
                   denominator = denominator (low b') + denominator (high b)\<rparr>"
      by simp
    with False q m show ?thesis by simp
  qed
qed

lemma bounded_three_quarters [simp]: "bounded 1 (Fin (3 / 4))"
  by simp

lemma gcd_3_4_5: "gcd (3::int) 4 = 1" "gcd (4::int) 5 = 1"
  using coprime_add_one_right [of "3::int"] coprime_add_one_right [of "4::int"]
  by (simp_all add: coprime_iff_gcd_eq_1)

theorem mediant_update_witness:
  "loop_body \<lparr>assertions = True, out_of_range = Indefinite\<rparr> Int64 (Fin (1 / 4))
      (Fin (1 / 4503599627370496)) initial
     = Continue \<lparr>low = \<lparr>numerator = 1, denominator = 5\<rparr>,
                  high = \<lparr>numerator = 1, denominator = 4\<rparr>\<rparr> \<and>
   (\<exists>v2. ddiv (testHigh (Fin (1 / 4)) initial) (testLow (Fin (1 / 4)) initial) = Fin 3 \<and>
      ddiv (testLow (Fin (1 / 4)) initial) (testHigh (Fin (1 / 4)) initial) = Fin v2 \<and> v2 < 3) \<and>
   loop_body \<lparr>assertions = True, out_of_range = Indefinite\<rparr> Int64 (Fin (3 / 4))
      (Fin (1 / 4503599627370496)) initial
     = Continue \<lparr>low = \<lparr>numerator = 3, denominator = 4\<rparr>,
                  high = \<lparr>numerator = 4, denominator = 5\<rparr>\<rparr> \<and>
   (\<exists>v1. ddiv (testHigh (Fin (3 / 4)) initial) (testLow (Fin (3 / 4)) initial) = Fin v1 \<and>
      ddiv (testLow (Fin (3 / 4)) initial) (testHigh (Fin (3 / 4)) initial) = Fin 3 \<and>
      \<not> 3 < v1)"
proof -
  let ?cfg = "\<lparr>assertions = True, out_of_range = Indefinite\<rparr>"
  let ?P = "1 / 4503599627370496 :: real"
  let ?b1 = "\<lparr>low = \<lparr>numerator = 1, denominator = 5\<rparr>, high = \<lparr>numerator = 1, denominator = 4\<rparr>\<rparr>"
  let ?b2 = "\<lparr>low = \<lparr>numerator = 3, denominator = 4\<rparr>, high = \<lparr>numerator = 4, denominator = 5\<rparr>\<rparr>"
  have p: "0 < ?P" by simp
  have e1: "loop_body ?cfg Int64 (Fin (1 / 4)) (Fin ?P) initial = Continue ?b1"
    by (simp add: body_eval int_eval double_eval)
  have x1: "ddiv (testHigh (Fin (1 / 4)) initial) (testLow (Fin (1 / 4)) initial) = Fin 3"
    by (simp add: body_eval double_eval)
  have v1: "visits ?cfg Int64 (Fin (1 / 4)) (Fin ?P) initial" by (rule visits.start)
  from mediant_update [OF v1 bounded_quarter p e1] x1 e1
  have 1: "\<exists>v2. ddiv (testHigh (Fin (1 / 4)) initial) (testLow (Fin (1 / 4)) initial) = Fin 3 \<and>
      ddiv (testLow (Fin (1 / 4)) initial) (testHigh (Fin (1 / 4)) initial) = Fin v2 \<and> v2 < 3"
    by (auto simp: initial_def split: if_splits)
  have e2: "loop_body ?cfg Int64 (Fin (3 / 4)) (Fin ?P) initial = Continue ?b2"
    by (simp add: body_eval int_eval double_eval gcd_3_4_5)
  have x2: "ddiv (testLow (Fin (3 / 4)) initial) (testHigh (Fin (3 / 4)) initial) = Fin 3"
    by (simp add: body_eval double_eval)
  have v2: "visits ?cfg Int64 (Fin (3 / 4)) (Fin ?P) initial" by (rule visits.start)
  from mediant_update [OF v2 bounded_three_quarters p e2] x2 e2
  have 2: "\<exists>v1. ddiv (testHigh (Fin (3 / 4)) initial) (testLow (Fin (3 / 4)) initial) = Fin v1 \<and>
      ddiv (testLow (Fin (3 / 4)) initial) (testHigh (Fin (3 / 4)) initial) = Fin 3 \<and> \<not> 3 < v1"
    by (auto simp: initial_def split: if_splits)
  from e1 1 e2 2 show ?thesis by (simp only: simp_thms)
qed

section \<open>Progress\<close>

lemma pass_grows:
  assumes "loop_body cfg T r (Fin p) b = Continue b'" "neighbours T b" "bounded 1 r" "0 < p"
  shows "denominator (low b) \<le> denominator (low b') \<and>
         denominator (high b) \<le> denominator (high b') \<and>
         (denominator (low b) < denominator (low b') \<or>
          denominator (high b) < denominator (high b'))"
proof -
  have d: "1 \<le> denominator (low b)" "1 \<le> denominator (high b)"
    using assms(2) by (simp_all add: neighbours_def)
  from assms obtain v1 v2 where
    x: "x1 r b = Fin v1" "x2 r b = Fin v2" and v: "0 \<le> v1" "0 \<le> v2"
    and s: "if v2 < v1 then step_x1 T \<lfloor>v1\<rfloor> b = Inr b' else step_x2 T \<lfloor>v2\<rfloor> b = Inr b'"
    by (rule positive_pass)
  show ?thesis
  proof (cases "v2 < v1")
    case True
    with s have st: "step_x1 T \<lfloor>v1\<rfloor> b = Inr b'" by simp
    have n: "0 \<le> \<lfloor>v1\<rfloor>" using v(1) by simp
    then have "0 \<le> \<lfloor>v1\<rfloor> * denominator (low b)" using d(1) by simp
    then show ?thesis
      using d by (simp add: step_x1_neighbours(1) [OF st assms(2) n])
  next
    case False
    with s have st: "step_x2 T \<lfloor>v2\<rfloor> b = Inr b'" by simp
    have n: "0 \<le> \<lfloor>v2\<rfloor>" using v(2) by simp
    then have "0 \<le> \<lfloor>v2\<rfloor> * denominator (high b)" using d(2) by simp
    then show ?thesis
      using d by (simp add: step_x2_neighbours(1) [OF st assms(2) n])
  qed
qed

text \<open>
  Claim C8, as amended. In a call with a positive precision, every pass that updates the
  bounds leaves neither denominator smaller and makes at least one of them larger. The pass
  that ends the loop does not touch \<open>low\<close>, and leaves \<open>high\<close> as it is unless it ends by
  \<open>testLow < Precision\<close>: then \<open>high\<close> becomes \<open>low\<close>, and its denominator can get smaller.
\<close>

theorem denominators_grow:
  assumes "visits cfg T r (Fin p) b" and "bounded 1 r" and "0 < p"
  shows "(\<forall>b'. loop_body cfg T r (Fin p) b = Continue b' \<longrightarrow>
            denominator (low b) \<le> denominator (low b') \<and>
            denominator (high b) \<le> denominator (high b') \<and>
            (denominator (low b) < denominator (low b') \<or>
             denominator (high b) < denominator (high b'))) \<and>
         (\<forall>why b'. loop_body cfg T r (Fin p) b = Break why b' \<longrightarrow>
            low b' = low b \<and> high b' = (if why = LowConverged then low b else high b))"
proof (intro conjI allI impI)
  fix b'
  assume c: "loop_body cfg T r (Fin p) b = Continue b'"
  from pass_grows [OF c visits_neighbours [OF assms] assms(2,3)]
  show "denominator (low b) \<le> denominator (low b')"
    and "denominator (high b) \<le> denominator (high b')"
    and "denominator (low b) < denominator (low b') \<or> denominator (high b) < denominator (high b')"
    by simp_all
next
  fix why b'
  assume "loop_body cfg T r (Fin p) b = Break why b'"
  then have "low b' = low b \<and> high b' = (if why = LowConverged then low b else high b)"
    by (auto simp: loop_body_def after_step_def split: if_splits sum.splits)
  then show "low b' = low b" and "high b' = (if why = LowConverged then low b else high b)"
    by simp_all
qed

theorem denominators_grow_witness:
  "loop_body \<lparr>assertions = True, out_of_range = Indefinite\<rparr> Int64 (Fin (1 / 4))
      (Fin (1 / 4503599627370496)) initial
     = Continue \<lparr>low = \<lparr>numerator = 1, denominator = 5\<rparr>,
                  high = \<lparr>numerator = 1, denominator = 4\<rparr>\<rparr> \<and>
   denominator (low initial) < 5 \<and> denominator (high initial) < 4 \<and>
   loop_body \<lparr>assertions = True, out_of_range = Indefinite\<rparr> Int64 (Fin (3 / 4))
      (Fin (1 / 4503599627370496)) initial
     = Continue \<lparr>low = \<lparr>numerator = 3, denominator = 4\<rparr>,
                  high = \<lparr>numerator = 4, denominator = 5\<rparr>\<rparr> \<and>
   denominator (low initial) < 4 \<and> denominator (high initial) < 5 \<and>
   loop_body \<lparr>assertions = True, out_of_range = Indefinite\<rparr> Int64 (Fin 0)
      (Fin (1 / 4503599627370496)) initial
     = Break LowConverged \<lparr>low = low initial, high = low initial\<rparr>"
proof -
  let ?cfg = "\<lparr>assertions = True, out_of_range = Indefinite\<rparr>"
  let ?P = "1 / 4503599627370496 :: real"
  let ?b1 = "\<lparr>low = \<lparr>numerator = 1, denominator = 5\<rparr>, high = \<lparr>numerator = 1, denominator = 4\<rparr>\<rparr>"
  let ?b2 = "\<lparr>low = \<lparr>numerator = 3, denominator = 4\<rparr>, high = \<lparr>numerator = 4, denominator = 5\<rparr>\<rparr>"
  have p: "0 < ?P" by simp
  have z: "bounded 1 (Fin 0)" by simp
  have e1: "loop_body ?cfg Int64 (Fin (1 / 4)) (Fin ?P) initial = Continue ?b1"
    by (simp add: body_eval int_eval double_eval)
  have e2: "loop_body ?cfg Int64 (Fin (3 / 4)) (Fin ?P) initial = Continue ?b2"
    by (simp add: body_eval int_eval double_eval gcd_3_4_5)
  have e3: "loop_body ?cfg Int64 (Fin 0) (Fin ?P) initial
      = Break LowConverged (initial\<lparr>high := low initial\<rparr>)"
    by (simp add: body_eval int_eval double_eval)
  have 1: "denominator (low initial) < 5 \<and> denominator (high initial) < 4"
    using denominators_grow [OF visits.start bounded_quarter p, of ?cfg Int64] e1
    by (simp add: initial_def)
  have 2: "denominator (low initial) < 4 \<and> denominator (high initial) < 5"
    using denominators_grow [OF visits.start bounded_three_quarters p, of ?cfg Int64] e2
    by (simp add: initial_def)
  obtain b' where b': "initial\<lparr>high := low initial\<rparr> = b'" by simp
  from denominators_grow [OF visits.start z p, of ?cfg Int64] e3 [unfolded b']
  have "low b' = low initial \<and> high b' = low initial" by simp
  then have 3: "b' = \<lparr>low = low initial, high = low initial\<rparr>" by (cases b') simp
  from e1 1 e2 2 e3 [unfolded b' 3] show ?thesis by (simp only: simp_thms)
qed

theorem high_denominator_drops:
  "remainder \<lparr>assertions = True, out_of_range = Indefinite\<rparr> Int64 (Fin (5 / 2)) = Fin (1 / 2) \<and>
   loop_body \<lparr>assertions = True, out_of_range = Indefinite\<rparr> Int64 (Fin (1 / 2))
      (Fin (1 / 4503599627370496)) initial
     = Continue \<lparr>low = \<lparr>numerator = 1, denominator = 2\<rparr>,
                  high = \<lparr>numerator = 2, denominator = 3\<rparr>\<rparr> \<and>
   loop_body \<lparr>assertions = True, out_of_range = Indefinite\<rparr> Int64 (Fin (1 / 2))
      (Fin (1 / 4503599627370496))
      \<lparr>low = \<lparr>numerator = 1, denominator = 2\<rparr>, high = \<lparr>numerator = 2, denominator = 3\<rparr>\<rparr>
     = Break LowConverged \<lparr>low = \<lparr>numerator = 1, denominator = 2\<rparr>,
                           high = \<lparr>numerator = 1, denominator = 2\<rparr>\<rparr> \<and>
   denominator (high \<lparr>low = \<lparr>numerator = 1, denominator = 2\<rparr>,
                       high = \<lparr>numerator = 1, denominator = 2\<rparr>\<rparr>)
     < denominator (high \<lparr>low = \<lparr>numerator = 1, denominator = 2\<rparr>,
                           high = \<lparr>numerator = 2, denominator = 3\<rparr>\<rparr>) \<and>
   toFract \<lparr>assertions = True, out_of_range = Indefinite\<rparr> Int64 (Fin (5 / 2))
      (Fin (1 / 4503599627370496)) = Some (Inr \<lparr>numerator = 5, denominator = 2\<rparr>)"
proof -
  let ?cfg = "\<lparr>assertions = True, out_of_range = Indefinite\<rparr>"
  let ?P = "Fin (1 / 4503599627370496)"
  let ?b1 = "\<lparr>low = \<lparr>numerator = 1, denominator = 2\<rparr>, high = \<lparr>numerator = 2, denominator = 3\<rparr>\<rparr>"
  let ?b2 = "\<lparr>low = \<lparr>numerator = 1, denominator = 2\<rparr>, high = \<lparr>numerator = 1, denominator = 2\<rparr>\<rparr>"
  have i: "intPart ?cfg Int64 (Fin (5 / 2)) = 2"
    by (simp add: intPart_def int_eval double_eval)
  have r: "remainder ?cfg Int64 (Fin (5 / 2)) = Fin (1 / 2)"
    by (simp add: remainder_def i double_eval)
  have p1: "loop_body ?cfg Int64 (Fin (1 / 2)) ?P initial = Continue ?b1"
    by (simp add: body_eval int_eval double_eval)
  have p2: "loop_body ?cfg Int64 (Fin (1 / 2)) ?P ?b1 = Break LowConverged ?b2"
    by (simp add: body_eval int_eval double_eval)
  have s: "search ?cfg Int64 (Fin (5 / 2)) ?P = Some (Inr (LowConverged, ?b2))"
    using loop_Continue [OF p1] loop_Break [OF p2] by (simp add: search_def r dgt_def dlt_def)
  have t: "toFract ?cfg Int64 (Fin (5 / 2)) ?P = Some (Inr \<lparr>numerator = 5, denominator = 2\<rparr>)"
    by (simp add: toFract_def s i int_eval)
  have d: "denominator (high ?b2) < denominator (high ?b1)" by simp
  from r p1 p2 d t show ?thesis by (simp only: simp_thms)
qed

section \<open>Termination\<close>

lemma neighbours_sum:
  assumes "neighbours T b"
  shows "denominator (low b) + denominator (high b) \<le> 2 ^ 64"
proof -
  have "MaxValue T \<le> 2 ^ 63" by (cases T) (simp_all add: MaxValue_def)
  then show ?thesis using assms by (simp add: neighbours_def in_range_def)
qed

lemma loop_terminates:
  assumes "neighbours T b" "bounded 1 r" "0 < p"
  shows "\<exists>res. loop cfg T r (Fin p) b = Some res"
  using assms(1)
proof (induction "nat (2 ^ 64 - (denominator (low b) + denominator (high b)))"
    arbitrary: b rule: less_induct)
  case less
  show ?case
  proof (cases "loop_body cfg T r (Fin p) b")
    case (Break why b')
    then show ?thesis by (simp add: loop_Break)
  next
    case (Abort e)
    then show ?thesis by (simp add: loop_Abort)
  next
    case (Continue b')
    have nb': "neighbours T b'"
      using Continue less(2) assms(2,3) by (rule positive_pass_neighbours)
    have "denominator (low b) + denominator (high b)
        < denominator (low b') + denominator (high b')"
      using pass_grows [OF Continue less(2) assms(2,3)] by linarith
    moreover note neighbours_sum [OF nb']
    ultimately have "nat (2 ^ 64 - (denominator (low b') + denominator (high b')))
        < nat (2 ^ 64 - (denominator (low b) + denominator (high b)))"
      by linarith
    from less(1) [OF this nb'] show ?thesis by (simp add: loop_Continue [OF Continue])
  qed
qed

lemma remainder_cases:
  "remainder cfg T (Fin v) = PInf \<or> remainder cfg T (Fin v) = NInf \<or>
   finite_d (remainder cfg T (Fin v))"
proof -
  have n: "dbl_of_int (intPart cfg T (Fin v)) \<noteq> NaN"
    by (simp add: dbl_of_int_def)
  have "remainder cfg T (Fin v) \<noteq> NaN"
    using n by (cases "dbl_of_int (intPart cfg T (Fin v))")
      (simp_all add: remainder_def dsub_def dadd_def)
  then show ?thesis
    by (cases "remainder cfg T (Fin v)") (simp_all add: finite_d_def)
qed

lemma search_enters:
  assumes "\<not> dgt (dabs (remainder cfg T (Fin v))) (Fin 1)"
  shows "bounded 1 (remainder cfg T (Fin v))"
  using remainder_cases [of cfg T v] assms
  by (cases "remainder cfg T (Fin v)") (auto simp: bounded_def finite_d_def dgt_def dlt_def)

lemma loop_within_loop:
  "loop_within k cfg T r P b = Some res \<Longrightarrow> loop cfg T r P b = Some res"
proof (induction k arbitrary: b)
  case 0
  then show ?case by simp
next
  case (Suc k)
  show ?case
  proof (cases "loop_body cfg T r P b")
    case (Break why b')
    with Suc.prems show ?thesis by (simp add: loop_Break)
  next
    case (Abort e)
    with Suc.prems show ?thesis by (simp add: loop_Abort)
  next
    case (Continue b')
    with Suc.prems have "loop_within k cfg T r P b' = Some res" by simp
    then have "loop cfg T r P b' = Some res" by (rule Suc.IH)
    then show ?thesis by (simp add: loop_Continue [OF Continue])
  qed
qed

subsection \<open>The multiplier is at least 1\<close>

lemma multiplier_positive:
  assumes "loop_body cfg T r (Fin p) b = Continue b'" "neighbours T b" "bounded 1 r" "0 < p"
    and "x1 r b = Fin v1" "x2 r b = Fin v2"
  shows "1 \<le> max v1 v2"
proof -
  from assms(1) have nt: "\<not> dlt (testHigh r b) (Fin p)" "\<not> dlt (testLow r b) (Fin p)"
    by (auto simp: loop_body_def split: if_splits)
  from tests_bounded(2) [OF assms(2,3)] nt(1) assms(4)
  obtain a where a: "testHigh r b = Fin a" "p \<le> a" by (rule not_dlt_positive)
  from tests_bounded(1) [OF assms(2,3)] nt(2) assms(4)
  obtain c where c: "testLow r b = Fin c" "p \<le> c" by (rule not_dlt_positive)
  have pos: "0 < a" "0 < c" using a c assms(4) by simp_all
  have e1: "rnd (a / c) = Fin v1"
    using assms(5) ddiv_positive(1) [OF pos] by (simp add: x1_def a c)
  have e2: "rnd (c / a) = Fin v2"
    using assms(6) ddiv_positive(1) [OF pos(2,1)] by (simp add: x2_def a c)
  show ?thesis
  proof (cases "c \<le> a")
    case True
    then have "1 \<le> a / c" using pos by simp
    from rnd_mono_ge [OF this] e1 have "1 \<le> v1" by simp
    then show ?thesis by simp
  next
    case False
    then have "1 \<le> c / a" using pos by simp
    from rnd_mono_ge [OF this] e2 have "1 \<le> v2" by simp
    then show ?thesis by simp
  qed
qed

lemma pass_doubles:
  assumes "loop_body cfg T r (Fin p) b = Continue b'" "neighbours T b" "bounded 1 r" "0 < p"
  shows "2 * (denominator (low b) + denominator (high b))
      \<le> denominator (low b') + denominator (high b')"
proof -
  have d: "1 \<le> denominator (low b)" "1 \<le> denominator (high b)"
    using assms(2) by (simp_all add: neighbours_def)
  from assms obtain v1 v2 where
    x: "x1 r b = Fin v1" "x2 r b = Fin v2" and v: "0 \<le> v1" "0 \<le> v2"
    and s: "if v2 < v1 then step_x1 T \<lfloor>v1\<rfloor> b = Inr b' else step_x2 T \<lfloor>v2\<rfloor> b = Inr b'"
    by (rule positive_pass)
  have m: "1 \<le> max v1 v2" using assms x by (rule multiplier_positive)
  show ?thesis
  proof (cases "v2 < v1")
    case True
    define n where "n = \<lfloor>v1\<rfloor>"
    from True s have st: "step_x1 T n b = Inr b'" by (simp add: n_def)
    have n: "1 \<le> n" using m True by (simp add: max_def le_floor_iff n_def)
    then have n0: "0 \<le> n" by simp
    note e = step_x1_neighbours(1) [OF st assms(2) n0]
    have "1 * denominator (low b) \<le> n * denominator (low b)"
      using n d(1) by (intro mult_right_mono) simp_all
    then have "denominator (low b) \<le> n * denominator (low b)" by simp
    then show ?thesis using d unfolding e by simp
  next
    case False
    define n where "n = \<lfloor>v2\<rfloor>"
    from False s have st: "step_x2 T n b = Inr b'" by (simp add: n_def)
    have n: "1 \<le> n" using m False by (simp add: max_def le_floor_iff n_def split: if_splits)
    then have n0: "0 \<le> n" by simp
    note e = step_x2_neighbours(1) [OF st assms(2) n0]
    have "1 * denominator (high b) \<le> n * denominator (high b)"
      using n d(2) by (intro mult_right_mono) simp_all
    then have "denominator (high b) \<le> n * denominator (high b)" by simp
    then show ?thesis using d unfolding e by simp
  qed
qed

lemma neighbours_sum_less:
  assumes "neighbours T b"
  shows "denominator (low b) + denominator (high b) < 2 ^ bits T"
proof -
  have "(2::int) * 2 ^ (bits T - 1) = 2 ^ bits T" by (cases T) simp_all
  then show ?thesis using assms by (simp add: neighbours_def in_range_def MaxValue_def)
qed

lemma loop_within_ends:
  assumes "bounded 1 r" "0 < p"
  shows "neighbours T b \<Longrightarrow> k \<le> bits T
    \<Longrightarrow> 2 ^ (bits T - k) \<le> denominator (low b) + denominator (high b)
    \<Longrightarrow> \<exists>res. loop_within k cfg T r (Fin p) b = Some res"
proof (induction k arbitrary: b)
  case 0
  then show ?case using neighbours_sum_less [of T b] by simp
next
  case (Suc k)
  show ?case
  proof (cases "loop_body cfg T r (Fin p) b")
    case (Break why b')
    then show ?thesis by simp
  next
    case (Abort e)
    then show ?thesis by simp
  next
    case (Continue b')
    have nb': "neighbours T b'"
      using Continue Suc.prems(1) assms by (rule positive_pass_neighbours)
    have "(2::int) ^ (bits T - k) = 2 * 2 ^ (bits T - Suc k)"
      using Suc.prems(2) by (simp add: Suc_diff_Suc flip: power_Suc)
    also have "\<dots> \<le> 2 * (denominator (low b) + denominator (high b))"
      using Suc.prems(3) by simp
    also have "\<dots> \<le> denominator (low b') + denominator (high b')"
      using Continue Suc.prems(1) assms by (rule pass_doubles)
    finally have "\<exists>res. loop_within k cfg T r (Fin p) b' = Some res"
      using nb' Suc.prems(2) by (intro Suc.IH) simp_all
    then show ?thesis using Continue by simp
  qed
qed

lemma loop_within_initial:
  assumes "bounded 1 r" "0 < p"
  shows "\<exists>res. loop_within (bits T - 1) cfg T r (Fin p) initial = Some res"
proof -
  have "bits T - (bits T - 1) = 1" by (cases T) simp_all
  then show ?thesis
    using assms by (intro loop_within_ends neighbours_initial) (simp_all add: initial_def)
qed

text \<open>
  Claim C4, as amended. The loop has no cap on its passes. For a finite value and a positive
  precision it ends all the same, within \<open>bits - 1\<close> passes (31 or 63): no precision test
  holding, both tests are positive, the multiplier is at least 1, and so a pass at least
  doubles the sum of the two denominators, which fit in \<^verbatim>\<open>int_type\<close>. The call then returns
  or fails: nothing is said here of which.
\<close>

theorem toFract_terminates:
  assumes "0 < p"
  shows "\<exists>res. search_within (bits T - 1) cfg T (Fin v) (Fin p) = Some res \<and>
           search cfg T (Fin v) (Fin p) = Some res \<and>
           (\<exists>out. toFract cfg T (Fin v) (Fin p) = Some out)"
proof (cases "dgt (dabs (remainder cfg T (Fin v))) (Fin 1)")
  case True
  then show ?thesis by (simp add: search_within_def search_def toFract_def)
next
  case False
  then have "bounded 1 (remainder cfg T (Fin v))" by (rule search_enters)
  from loop_within_initial [OF this assms] obtain res where
    w: "loop_within (bits T - 1) cfg T (remainder cfg T (Fin v)) (Fin p) initial = Some res"
    by blast
  then have "loop cfg T (remainder cfg T (Fin v)) (Fin p) initial = Some res"
    by (rule loop_within_loop)
  with w False show ?thesis
    by (auto simp: search_within_def search_def toFract_def split: sum.splits)
qed

theorem toFract_terminates_witness:
  "(0::real) < 1 / 4503599627370496 \<and>
   (\<exists>res. search_within 63 \<lparr>assertions = True, out_of_range = Indefinite\<rparr> Int64
        (Fin (5 / 2)) (Fin (1 / 4503599627370496)) = Some res \<and>
      (\<exists>out. toFract \<lparr>assertions = True, out_of_range = Indefinite\<rparr> Int64
        (Fin (5 / 2)) (Fin (1 / 4503599627370496)) = Some out))"
proof -
  have p: "(0::real) < 1 / 4503599627370496" by simp
  from toFract_terminates [OF p, of Int64 "\<lparr>assertions = True, out_of_range = Indefinite\<rparr>" "5 / 2"]
  show ?thesis by auto
qed

subsection \<open>A run of more than 64 passes\<close>

lemma is_double_scaled:
  assumes "- 1074 \<le> e" "\<bar>m\<bar> \<le> 2 ^ 53" "e \<le> 970"
  shows "is_double (of_int m * pow2 e)"
proof -
  have "\<bar>of_int m :: real\<bar> \<le> of_int (2 ^ 53)" using assms(2) by (metis of_int_abs of_int_le_iff)
  then have "\<bar>of_int m :: real\<bar> \<le> pow2 53" by (simp add: pow2_nat)
  then have "\<bar>of_int m * pow2 e\<bar> \<le> pow2 53 * pow2 e"
    using pow2_pos [of e] by (simp add: abs_mult)
  also have "\<dots> = pow2 (53 + e)" by (simp add: pow2_add)
  also have "\<dots> < pow2 1024" using assms(3) by (simp add: pow2_less_iff)
  finally have "\<bar>of_int m * pow2 e\<bar> < overflow_threshold"
    by (simp add: pow2_nat overflow_threshold_def)
  then show ?thesis using assms by (simp add: is_double_def rnd_val_fix)
qed

lemma is_double_halves:
  assumes "\<bar>m\<bar> \<le> 2 ^ 53"
  shows "is_double (of_int m / 2)"
  using is_double_scaled [of "- 1" m] assms by (simp add: pow2_def)


text \<open>With a negative precision, assertions compiled out and the value \<open>-1/2\<close>, the bounds go
  from \<open>0/1, 1/k\<close> to \<open>0/1, 1/(k+1)\<close>: \<open>testLow = -1/2\<close> and \<open>testHigh = 1 + k/2\<close> are not
  below the precision, \<open>x1 = -(k+2)\<close> is not above \<open>x2 = -1/(k+2)\<close>, and the multiplier is
  \<^verbatim>\<open>int_type(x2)\<close>, which is 0.\<close>

lemma slow_pass:
  fixes k :: int
  assumes k: "1 \<le> k" "k \<le> 1000"
  shows "loop_body \<lparr>assertions = False, out_of_range = c\<rparr> Int32 (Fin (- (1 / 2))) (Fin (- 1))
           \<lparr>low = \<lparr>numerator = 0, denominator = 1\<rparr>, high = \<lparr>numerator = 1, denominator = k\<rparr>\<rparr>
         = Continue
           \<lparr>low = \<lparr>numerator = 0, denominator = 1\<rparr>, high = \<lparr>numerator = 1, denominator = k + 1\<rparr>\<rparr>"
proof -
  let ?cfg = "\<lparr>assertions = False, out_of_range = c\<rparr>"
  let ?r = "Fin (- (1 / 2))"
  let ?b = "\<lparr>low = \<lparr>numerator = 0, denominator = 1\<rparr>, high = \<lparr>numerator = 1, denominator = k\<rparr>\<rparr>"
  let ?b' = "\<lparr>low = \<lparr>numerator = 0, denominator = 1\<rparr>,
             high = \<lparr>numerator = 1, denominator = k + 1\<rparr>\<rparr>"
  have half: "is_double (1 / 2)" using is_double_halves [of 1] by simp
  have kr: "1 \<le> (of_int k :: real)" "(of_int k :: real) \<le> 1000" using k by simp_all
  have dk: "dbl_of_int k = Fin (of_int k)" using k by (intro dbl_of_int_exact) simp
  have tl: "testLow ?r ?b = Fin (- (1 / 2))"
    by (simp add: testLow_def dmul_one dsub_zero half)
  have "is_double (of_int k / 2)" using k by (intro is_double_halves) simp
  then have m: "dmul (Fin (of_int k)) ?r = Fin (- (of_int k / 2))"
    using kr by (simp add: dmul_def rnd_exact)
  have "is_double (of_int (k + 2) / 2)" using k by (intro is_double_halves) simp
  moreover have "of_int (k + 2) / 2 = (1 + of_int k / 2 :: real)" by simp
  ultimately have "is_double (1 + of_int k / 2)" by (simp only:)
  then have th: "testHigh ?r ?b = Fin (1 + of_int k / 2)"
    using kr by (simp add: testHigh_def dk m dsub_def dadd_def rnd_exact)
  have "is_double (of_int (- (k + 2)))" using k by (intro is_double_of_int) simp
  then have "rnd (- (of_int k + 2)) = Fin (- (of_int k + 2))"
    using rnd_exact [of "- (of_int k + 2)"] by simp
  moreover have "(1 + of_int k / 2) / (- (1 / 2)) = - (of_int k + 2 :: real)" by simp
  ultimately have x1: "x1 ?r ?b = Fin (- (of_int k + 2))"
    using kr by (simp only: x1_def th tl ddiv_def fin_val.simps is_zero.simps is_inf.simps) simp
  define q :: real where "q = - (1 / (of_int k + 2))"
  define X where "X = x2 ?r ?b"
  have "(- (1 / 2)) / (1 + of_int k / 2) = q" using kr by (simp add: q_def field_simps)
  then have X: "X = rnd q"
    using kr by (simp only: X_def x2_def th tl ddiv_def fin_val.simps is_zero.simps is_inf.simps) simp
  have q: "\<bar>q\<bar> \<le> 1 / 2" "q \<le> 0" using kr by (simp_all add: q_def field_simps)
  from rnd_bounded [OF q(1) half]
  have f: "finite_d X" "\<bar>fin_val X\<bar> \<le> 1 / 2" "fin_val X = rnd_val q" by (simp_all add: X)
  have neg: "fin_val X \<le> 0" using rnd_val_le [OF q(2)] by (simp add: f(3))
  have bX: "bounded (1 / 2) X" using f by (simp add: bounded_def)
  have ngt: "\<not> dgt (x1 ?r ?b) (x2 ?r ?b)"
    unfolding x1 X_def [symmetric]
    by (rule bounded_cases [OF bX]) (use kr in \<open>simp_all add: dgt_def dlt_def\<close>)
  have "is_double (of_int 3 / 2)" by (intro is_double_halves) simp
  then have "is_double (1 / 2 + 1)" by simp
  with bX have b1: "bounded (1 / 2 + 1) (dadd X (Fin 1))" by (intro bounded_dadd) simp_all
  have "is_double (of_int 1500)" by (intro is_double_of_int) simp
  then have "is_double ((1 / 2 + 1) * 1000)" by simp
  with b1 have b2: "bounded ((1 / 2 + 1) * 1000) (dmul (dadd X (Fin 1)) (Fin (of_int k)))"
    using kr by (intro bounded_dmul) simp_all
  have "is_double (of_int 1501)" by (intro is_double_of_int) simp
  then have "is_double (1 + (1 / 2 + 1) * 1000)" by simp
  with b2 have b3: "bounded (1 + (1 / 2 + 1) * 1000)
      (dadd (Fin 1) (dmul (dadd X (Fin 1)) (Fin (of_int k))))"
    by (intro bounded_dadd) simp_all
  have mx: "dbl_of_int (MaxValue Int32) = Fin 2147483647"
    using dbl_of_int_exact [of 2147483647] by (simp add: MaxValue_def)
  have guard: "\<not> out_of_bounds_x2 Int32 ?r ?b"
    using b3 unfolding out_of_bounds_x2_def X_def [symmetric]
    by (elim bounded_cases) (simp_all add: dk mx dge_def dle_def)
  have n: "to_int_type ?cfg Int32 X = 0"
  proof (rule bounded_cases [OF bX])
    assume "X = NegZero"
    then show ?thesis by (simp add: to_int_type_def)
  next
    fix a assume a: "X = Fin a" "\<bar>a\<bar> \<le> 1 / 2"
    with neg have "a \<le> 0" by simp
    with a(2) have "trunc a = 0" by (auto simp: trunc_def ceiling_eq_iff)
    then show ?thesis
      by (simp add: a(1) to_int_type_def in_range_def MaxValue_def MinValue_def)
  qed
  have step: "step_x2 Int32 0 ?b = Inr ?b'"
    using k by (simp add: step_x2_def mul_add_def checked_def and_then_def in_range_def
        MaxValue_def MinValue_def Fraction_def add.commute)
  show ?thesis
    using ngt guard kr
    by (simp add: loop_body_def asserts_hold_def th tl dlt_def n [unfolded X_def] step
        after_step_def)
qed

lemma slow_run:
  "1 \<le> k \<Longrightarrow> k + int j \<le> 1001
    \<Longrightarrow> loop_within j \<lparr>assertions = False, out_of_range = c\<rparr> Int32 (Fin (- (1 / 2))) (Fin (- 1))
          \<lparr>low = \<lparr>numerator = 0, denominator = 1\<rparr>, high = \<lparr>numerator = 1, denominator = k\<rparr>\<rparr>
        = None"
proof (induction j arbitrary: k)
  case 0
  show ?case by simp
next
  case (Suc j)
  have "k \<le> 1000" using Suc.prems(2) by simp
  from slow_pass [OF Suc.prems(1) this, of c] Suc.IH [of "k + 1"] Suc.prems
  show ?case by simp
qed

lemma remainder_minus_half:
  "remainder cfg Int32 (Fin (- (1 / 2))) = Fin (- (1 / 2))"
proof -
  have "trunc (- (1 / 2)) = 0" by (simp add: trunc_def ceiling_eq_iff)
  moreover have "is_double (1 / 2)" using is_double_halves [of 1] by simp
  ultimately show ?thesis
    by (simp add: remainder_def intPart_def to_int_type_def in_range_def MaxValue_def
        MinValue_def dsub_zero)
qed

theorem more_than_64_passes:
  "search_within 64 \<lparr>assertions = False, out_of_range = Indefinite\<rparr> Int32
     (Fin (- (1 / 2))) (Fin (- 1)) = None"
  using slow_run [of 1 64 Indefinite]
  by (simp add: search_within_def remainder_minus_half dgt_def dlt_def initial_def)


section \<open>The bracket after an update\<close>

lemma overshoot_pass:
  assumes "0 < p" "p \<le> 12381 / 576460752303423488"
  shows "loop_body \<lparr>assertions = True, out_of_range = c\<rparr> Int64
           (Fin (12381 / 576460752303423488)) (Fin p) initial = Abort AssertionFailed"
proof -
  let ?cfg = "\<lparr>assertions = True, out_of_range = c\<rparr>"
  let ?r = "Fin (12381 / 576460752303423488)"
  let ?b' = "\<lparr>low = \<lparr>numerator = 1, denominator = 46560112454845\<rparr>,
             high = \<lparr>numerator = 1, denominator = 46560112454844\<rparr>\<rparr>"
  have a: "asserts_hold ?cfg ?r initial"
    by (simp add: body_eval double_eval)
  have tl: "testLow ?r initial = ?r"
    by (simp add: body_eval double_eval)
  have th: "testHigh ?r initial = Fin (9007199254740799 / 9007199254740992)"
    by (simp add: body_eval double_eval)
  have x1: "x1 ?r initial = Fin 46560112454843"
    unfolding x1_def th tl by (simp add: double_eval)
  have x2: "x2 ?r initial = Fin (3403263365873737 / 158456325028528675187087900672)"
    unfolding x2_def th tl by (simp add: double_eval)
  have g: "\<not> out_of_bounds_x1 Int64 ?r initial"
    unfolding out_of_bounds_x1_def x1 by (simp add: initial_def int_eval double_eval)
  have s: "step_x1 Int64 46560112454843 initial = Inr ?b'"
    by (simp add: step_x1_def initial_def int_eval)
  have f: "\<not> asserts_hold ?cfg ?r ?b'"
    by (simp add: asserts_hold_def toFloat_def double_eval)
  show ?thesis
    using assms a g f
    by (simp add: loop_body_def tl th x1 x2 s after_step_def dlt_def dgt_def
        to_int_type_def trunc_def in_range_def MaxValue_def MinValue_def)
qed


lemma remainder_below_one:
  "remainder cfg Int64 (Fin (12381 / 576460752303423488)) = Fin (12381 / 576460752303423488)"
  by (simp add: remainder_def intPart_def int_eval double_eval)

text \<open>
  Claim C5. The source asserts \<^verbatim>\<open>toFloat(low) <= val\<close> and \<^verbatim>\<open>toFloat(high) >= val\<close> at the
  head of the loop body and again after the update. For \<open>val = 12381 / 2^59\<close> and the default
  precision \<^verbatim>\<open>DBL_EPSILON\<close> the first update loses the bracket: \<open>x1 = testHigh / testLow\<close>
  is rounded up to the integer 46560112454843, one more than the floor of the exact quotient,
  the new \<open>high\<close> is \<open>1/46560112454844\<close>, which is below \<open>val\<close>, as a number and as
  \<^verbatim>\<open>toFloat(high)\<close>, and the second assertion after the update fails. The same happens with
  the precision \<open>2^-100\<close>, which is less than the amount \<open>2^-98\<close> by which \<^verbatim>\<open>toFloat(high)\<close>
  is below \<open>val\<close>.
\<close>

theorem bracket_lost_after_update:
  "toFract \<lparr>assertions = True, out_of_range = Indefinite\<rparr> Int64
     (Fin (12381 / 576460752303423488)) (Fin (1 / 4503599627370496)) = Some (Inl AssertionFailed) \<and>
   toFract \<lparr>assertions = True, out_of_range = Indefinite\<rparr> Int64
     (Fin (12381 / 576460752303423488)) (Fin (1 / 1267650600228229401496703205376))
     = Some (Inl AssertionFailed) \<and>
   asserts_hold \<lparr>assertions = True, out_of_range = Indefinite\<rparr>
     (Fin (12381 / 576460752303423488)) initial \<and>
   step_x1 Int64 46560112454843 initial
     = Inr \<lparr>low = \<lparr>numerator = 1, denominator = 46560112454845\<rparr>,
            high = \<lparr>numerator = 1, denominator = 46560112454844\<rparr>\<rparr> \<and>
   frac_val \<lparr>numerator = 1, denominator = 46560112454844\<rparr> < 12381 / 576460752303423488 \<and>
   dlt (dadd (toFloat \<lparr>numerator = 1, denominator = 46560112454844\<rparr>)
          (Fin (1 / 1267650600228229401496703205376)))
       (Fin (12381 / 576460752303423488))"
proof -
  let ?cfg = "\<lparr>assertions = True, out_of_range = Indefinite\<rparr>"
  let ?r = "Fin (12381 / 576460752303423488)"
  have small: "\<not> dgt (dabs ?r) (Fin 1)" by (simp add: dgt_def dlt_def)
  have run: "toFract ?cfg Int64 ?r (Fin p) = Some (Inl AssertionFailed)"
    if "0 < p" "p \<le> 12381 / 576460752303423488" for p
    using loop_Abort [OF overshoot_pass [OF that, of Indefinite]] small
    by (simp add: toFract_def search_def remainder_below_one)
  have 1: "toFract ?cfg Int64 ?r (Fin (1 / 4503599627370496)) = Some (Inl AssertionFailed)"
    by (rule run) simp_all
  have 2: "toFract ?cfg Int64 ?r (Fin (1 / 1267650600228229401496703205376))
      = Some (Inl AssertionFailed)"
    by (rule run) simp_all
  have 3: "asserts_hold ?cfg ?r initial"
    by (simp add: body_eval double_eval)
  have 4: "step_x1 Int64 46560112454843 initial
     = Inr \<lparr>low = \<lparr>numerator = 1, denominator = 46560112454845\<rparr>,
            high = \<lparr>numerator = 1, denominator = 46560112454844\<rparr>\<rparr>"
    by (simp add: step_x1_def initial_def int_eval)
  have 5: "frac_val \<lparr>numerator = 1, denominator = 46560112454844\<rparr>
      < 12381 / 576460752303423488"
    by (simp add: frac_val_def)
  have 6: "dlt (dadd (toFloat \<lparr>numerator = 1, denominator = 46560112454844\<rparr>)
          (Fin (1 / 1267650600228229401496703205376)))
       (Fin (12381 / 576460752303423488))"
    by (simp add: toFloat_def double_eval)
  from 1 2 3 4 5 6 show ?thesis by (simp only: simp_thms)
qed

section \<open>A value the returned fraction does not round back to\<close>

text \<open>
  For \<open>val = 2^25 - 2^-28\<close> and the default precision \<^verbatim>\<open>DBL_EPSILON\<close> the remainder is
  \<open>1 - 2^-28\<close>. After one update \<open>low\<close> is exactly the remainder and \<open>high\<close> is
  \<open>2^28 / (2^28 + 1)\<close>; the product \<open>high.denominator * val\<close> rounds to \<open>2^28\<close>, so \<open>testHigh\<close>
  is 0 and \<open>high\<close> is returned, \<open>testHigh\<close> being tested first. The numerator of the result
  is above \<open>2^53\<close> and odd, \<^verbatim>\<open>toFloat\<close> rounds it, and the quotient is \<open>2^25\<close>: \<open>2^-28\<close> away
  from the value, with a precision of \<open>2^-52\<close>.
\<close>

theorem round_trip_fails:
  "toFract \<lparr>assertions = True, out_of_range = Indefinite\<rparr> Int64
     (Fin (9007199254740991 / 268435456)) (Fin (1 / 4503599627370496))
     = Some (Inr \<lparr>numerator = 9007199288295423, denominator = 268435457\<rparr>) \<and>
   search \<lparr>assertions = True, out_of_range = Indefinite\<rparr> Int64
     (Fin (9007199254740991 / 268435456)) (Fin (1 / 4503599627370496))
     = Some (Inr (HighConverged,
         \<lparr>low = \<lparr>numerator = 268435455, denominator = 268435456\<rparr>,
          high = \<lparr>numerator = 268435456, denominator = 268435457\<rparr>\<rparr>)) \<and>
   toFloat \<lparr>numerator = 9007199288295423, denominator = 268435457\<rparr> = Fin 33554432 \<and>
   \<not> dlt (dabs (dsub (toFloat \<lparr>numerator = 9007199288295423, denominator = 268435457\<rparr>)
                 (Fin (9007199254740991 / 268435456))))
         (Fin (1 / 4503599627370496))"
proof -
  let ?cfg = "\<lparr>assertions = True, out_of_range = Indefinite\<rparr>"
  let ?v = "Fin (9007199254740991 / 268435456)"
  let ?P = "Fin (1 / 4503599627370496)"
  let ?b = "\<lparr>low = \<lparr>numerator = 268435455, denominator = 268435456\<rparr>,
            high = \<lparr>numerator = 268435456, denominator = 268435457\<rparr>\<rparr>"
  have i: "intPart ?cfg Int64 ?v = 33554431"
    by (simp add: intPart_def int_eval double_eval)
  have r: "remainder ?cfg Int64 ?v = Fin (268435455 / 268435456)"
    by (simp add: remainder_def i double_eval)
  have g: "gcd (268435455::int) 268435456 = 1" "gcd (268435456::int) 268435457 = 1"
    using coprime_add_one_right [of "268435455::int"] coprime_add_one_right [of "268435456::int"]
    by (simp_all add: coprime_iff_gcd_eq_1)
  have p1: "loop_body ?cfg Int64 (Fin (268435455 / 268435456)) ?P initial = Continue ?b"
    by (simp add: body_eval int_eval double_eval g)
  have p2: "loop_body ?cfg Int64 (Fin (268435455 / 268435456)) ?P ?b = Break HighConverged ?b"
    by (simp add: body_eval int_eval double_eval)
  have s: "search ?cfg Int64 ?v ?P = Some (Inr (HighConverged, ?b))"
    using loop_Continue [OF p1] loop_Break [OF p2] by (simp add: search_def r dgt_def dlt_def)
  have t: "toFract ?cfg Int64 ?v ?P
      = Some (Inr \<lparr>numerator = 9007199288295423, denominator = 268435457\<rparr>)"
    by (simp add: toFract_def s i int_eval)
  have f: "toFloat \<lparr>numerator = 9007199288295423, denominator = 268435457\<rparr> = Fin 33554432"
    by (simp add: toFloat_def double_eval)
  have d: "\<not> dlt (dabs (dsub (Fin 33554432) ?v)) ?P"
    by (simp add: double_eval)
  from s t f d show ?thesis by (simp only: simp_thms)
qed


section \<open>The error of a rounding\<close>

lemma rnd_val_error_quantum: "\<bar>rnd_val x - x\<bar> \<le> quantum x / 2"
proof -
  define q where "q = quantum x"
  have q: "0 < q" by (simp add: q_def quantum_pos)
  define m where "m = round_even (x / q)"
  have "\<bar>of_int m - x / q\<bar> \<le> 1 / 2"
    using round_even_bounds [of "x / q"] unfolding m_def by linarith
  then have "\<bar>of_int m - x / q\<bar> * q \<le> 1 / 2 * q"
    using q by (intro mult_right_mono) simp_all
  moreover have "of_int m * q - x = (of_int m - x / q) * q"
    using q by (simp add: field_simps)
  ultimately have "\<bar>of_int m * q - x\<bar> \<le> q / 2"
    using q by (simp add: abs_mult)
  then show ?thesis by (simp add: rnd_val_def m_def q_def)
qed

lemma pow2_minus_1: "pow2 (- 1) = 1 / 2"
  by (simp add: pow2_def)

lemma pow2_minus_52: "pow2 (- 52) = 1 / 2 ^ 52"
  by (simp add: pow2_def)

lemma quantum_normal:
  assumes "pow2 (- 1022) \<le> \<bar>x\<bar>"
  shows "quantum x \<le> \<bar>x\<bar> / 2 ^ 52"
proof -
  have p: "0 < \<bar>x\<bar>" using assms pow2_pos [of "- 1022"] by linarith
  have "ilog2 (pow2 (- 1022)) \<le> ilog2 \<bar>x\<bar>"
    using assms by (intro ilog2_mono) (simp_all add: pow2_pos)
  then have "- 1022 \<le> ilog2 \<bar>x\<bar>" by (simp add: ilog2_pow2)
  then have "exponent x = ilog2 \<bar>x\<bar>" by (simp add: exponent_def)
  then have "quantum x = pow2 (ilog2 \<bar>x\<bar>) * pow2 (- 52)"
    by (simp add: quantum_def pow2_mult_eq)
  also have "\<dots> \<le> \<bar>x\<bar> * pow2 (- 52)"
    using ilog2_bounds(1) [OF p] pow2_pos [of "- 52"] by (intro mult_right_mono) simp_all
  finally show ?thesis by (simp add: pow2_minus_52)
qed

lemma rnd_val_error_normal:
  assumes "pow2 (- 1022) \<le> \<bar>x\<bar>"
  shows "\<bar>rnd_val x - x\<bar> \<le> \<bar>x\<bar> / 2 ^ 53"
  using rnd_val_error_quantum [of x] quantum_normal [OF assms] by simp

lemma quantum_subnormal:
  assumes "\<bar>x\<bar> < pow2 (- 1022)" "x \<noteq> 0"
  shows "quantum x = pow2 (- 1074)"
proof -
  have "0 < \<bar>x\<bar>" using assms(2) by simp
  moreover have "\<bar>x\<bar> < pow2 (- 1023 + 1)" using assms(1) by simp
  ultimately have "ilog2 \<bar>x\<bar> \<le> - 1023" by (rule ilog2_le)
  then have "exponent x = - 1022" by (simp add: exponent_def)
  then show ?thesis by (simp add: quantum_def)
qed

lemma rnd_val_error: "\<bar>rnd_val x - x\<bar> \<le> \<bar>x\<bar> / 2 ^ 53 + pow2 (- 1075)"
proof -
  consider "x = 0" | "x \<noteq> 0" "\<bar>x\<bar> < pow2 (- 1022)" | "pow2 (- 1022) \<le> \<bar>x\<bar>" by linarith
  then show ?thesis
  proof cases
    case 1
    then show ?thesis using pow2_pos [of "- 1075"] by simp
  next
    case 2
    have "pow2 (- 1074) * pow2 (- 1) = pow2 (- 1075)" by (rule pow2_mult_eq) simp
    then have "quantum x / 2 = pow2 (- 1075)"
      using quantum_subnormal [OF 2(2,1)] by (simp add: pow2_minus_1)
    moreover have "0 \<le> \<bar>x\<bar> / 2 ^ 53" by simp
    ultimately show ?thesis using rnd_val_error_quantum [of x] by linarith
  next
    case 3
    then show ?thesis using rnd_val_error_normal [of x] pow2_pos [of "- 1075"] by linarith
  qed
qed

lemma pow2_tiny: "pow2 (- 1075) \<le> 1 / 2 ^ 53"
proof -
  have "pow2 (- 1075) \<le> pow2 (- 53)" by (simp add: pow2_le_iff)
  then show ?thesis by (simp add: pow2_def)
qed

lemma pow2_normal_le_1: "pow2 (- 1022) \<le> 1 / 2 ^ 64"
proof -
  have "pow2 (- 1022) \<le> pow2 (- 64)" by (simp add: pow2_le_iff)
  then show ?thesis by (simp add: pow2_def)
qed

lemma rnd_val_error_int:
  "\<bar>rnd_val (of_int n) - of_int n\<bar> \<le> \<bar>of_int n\<bar> / 2 ^ 53"
proof (cases "n = 0")
  case True
  then show ?thesis by simp
next
  case False
  then have "1 \<le> \<bar>n\<bar>" by simp
  then have "(1::real) \<le> \<bar>of_int n\<bar>" by (metis of_int_1_le_iff of_int_abs)
  then have "pow2 (- 1022) \<le> \<bar>of_int n :: real\<bar>" using pow2_normal_le_1 by simp
  then show ?thesis by (rule rnd_val_error_normal)
qed

section \<open>The value of a floating-point operation\<close>

lemma fin_val_dneg [simp]: "fin_val (dneg x) = - fin_val x"
  by (cases x) simp_all

lemma fin_val_dbl_of_int:
  assumes "in_range T i"
  shows "fin_val (dbl_of_int i) = rnd_val (of_int i)"
proof -
  have "\<bar>i\<bar> \<le> 2 ^ 63" using assms by (rule in_range_abs)
  then have "\<bar>of_int i :: real\<bar> \<le> of_int (2 ^ 63)" by (metis of_int_abs of_int_le_iff)
  then have "\<bar>of_int i :: real\<bar> \<le> 2 ^ 63" by simp
  moreover have "is_double (2 ^ 63)" by (rule is_double_power2) simp
  ultimately show ?thesis unfolding dbl_of_int_def by (rule rnd_bounded(3))
qed

lemma fin_val_dmul:
  assumes "bounded A x" "bounded B y" "is_double (A * B)"
  shows "fin_val (dmul x y) = rnd_val (fin_val x * fin_val y)"
proof -
  have m: "\<bar>a * b\<bar> \<le> A * B" if "\<bar>a\<bar> \<le> A" "\<bar>b\<bar> \<le> B" for a b
    using that by (simp add: abs_mult mult_mono)
  show ?thesis
    using assms(1,2)
    by (elim bounded_cases)
      (auto simp: dmul_def signed_zero_def intro!: rnd_bounded(3) [of _ "A * B"] m assms(3))
qed

lemma fin_val_dadd:
  assumes "bounded A x" "bounded B y" "is_double (A + B)"
  shows "fin_val (dadd x y) = rnd_val (fin_val x + fin_val y)"
proof -
  have A: "0 \<le> A" and B: "0 \<le> B" using assms(1,2) by (auto dest: bounded_nonneg)
  have key: "fin_val (rnd s) = rnd_val s" if "\<bar>s\<bar> \<le> A + B" for s
    using that assms(3) by (rule rnd_bounded(3))
  show ?thesis
  proof (rule bounded_cases [OF assms(1)]; rule bounded_cases [OF assms(2)])
    assume "x = NegZero" "y = NegZero"
    then show ?thesis by (simp add: dadd_def)
  next
    fix b assume "x = NegZero" "y = Fin b" "\<bar>b\<bar> \<le> B"
    moreover from this A have "\<bar>b\<bar> \<le> A + B" by linarith
    ultimately show ?thesis by (simp add: dadd_def key)
  next
    fix a assume "x = Fin a" "\<bar>a\<bar> \<le> A" "y = NegZero"
    moreover from this B have "\<bar>a\<bar> \<le> A + B" by linarith
    ultimately show ?thesis by (simp add: dadd_def key)
  next
    fix a b assume "x = Fin a" "\<bar>a\<bar> \<le> A" "y = Fin b" "\<bar>b\<bar> \<le> B"
    moreover from this have "\<bar>a + b\<bar> \<le> A + B" by linarith
    ultimately show ?thesis by (simp add: dadd_def key)
  qed
qed

lemma fin_val_dsub:
  assumes "bounded A x" "bounded B y" "is_double (A + B)"
  shows "fin_val (dsub x y) = rnd_val (fin_val x - fin_val y)"
  unfolding dsub_def using fin_val_dadd [OF assms(1) bounded_dneg [OF assms(2)] assms(3)]
  by simp

lemma fin_val_ddiv:
  assumes "bounded A x" "1 \<le> d" "is_double A"
  shows "fin_val (ddiv x (Fin d)) = rnd_val (fin_val x / d)"
    and "finite_d (ddiv x (Fin d))"
proof -
  have m: "\<bar>a / d\<bar> \<le> A" if "\<bar>a\<bar> \<le> A" for a
  proof -
    have "\<bar>a\<bar> / d \<le> \<bar>a\<bar> / 1" using assms(2) by (intro divide_left_mono) simp_all
    then show ?thesis using that assms(2) by simp
  qed
  show "fin_val (ddiv x (Fin d)) = rnd_val (fin_val x / d)"
    using assms(1,2)
    by (elim bounded_cases)
      (auto simp: ddiv_def signed_zero_def intro!: rnd_bounded(3) [of _ A] m assms(3))
  show "finite_d (ddiv x (Fin d))"
  proof (rule bounded_cases [OF assms(1)])
    assume "x = NegZero"
    then show ?thesis using assms(2) by (simp add: ddiv_def signed_zero_def finite_d_def)
  next
    fix a assume a: "x = Fin a" "\<bar>a\<bar> \<le> A"
    show ?thesis
    proof (cases "a = 0")
      case True
      then show ?thesis using assms(2) a by (simp add: ddiv_def signed_zero_def finite_d_def)
    next
      case False
      then have "ddiv x (Fin d) = rnd (a / d)" using assms(2) a by (simp add: ddiv_def)
      then show ?thesis using rnd_bounded(1) [OF m [OF a(2)] assms(3)] by simp
    qed
  qed
qed


lemma dlt_bounded:
  assumes "bounded B x" "dlt x (Fin t)"
  shows "fin_val x < t"
  using assms by (elim bounded_cases) (simp_all add: dlt_def)

lemma dle_finite:
  assumes "finite_d x" "finite_d y" "dle x y"
  shows "fin_val x \<le> fin_val y"
  using assms by (cases x; cases y) (simp_all add: dle_def finite_d_def)

lemma rnd_val_less_double:
  assumes "rnd_val s < t" "is_double t"
  shows "s < t"
proof (rule ccontr)
  assume "\<not> s < t"
  then have "t \<le> s" by simp
  then have "t \<le> rnd_val s" using assms(2) by (intro rnd_val_ge) (simp_all add: is_double_def)
  with assms(1) show False by simp
qed

section \<open>The residual behind a precision test\<close>

text \<open>\<open>n - d * \<rho>\<close> computed in floating point as \<open>N - M\<close>, where \<open>N\<close> and \<open>D\<close> are the roundings of
  the integers \<open>n\<close> and \<open>d\<close> and \<open>M\<close> is the rounding of \<open>D * \<rho>\<close>.\<close>

lemma residual_error:
  fixes n d N D M \<rho> :: real
  assumes "\<bar>N - n\<bar> \<le> \<bar>n\<bar> / 2 ^ 53" "\<bar>D - d\<bar> \<le> \<bar>d\<bar> / 2 ^ 53"
    and "\<bar>M - D * \<rho>\<bar> \<le> \<bar>D * \<rho>\<bar> / 2 ^ 53 + pow2 (- 1075)"
    and "\<bar>\<rho>\<bar> \<le> 1" "1 \<le> d" "0 \<le> n" "n \<le> d"
  shows "\<bar>(N - M) - (n - d * \<rho>)\<bar> \<le> 5 * d / 2 ^ 53"
proof -
  define P where "P = D * \<rho>"
  define Q where "Q = (D - d) * \<rho>"
  define R where "R = d * \<rho>"
  have pqr: "P = R + Q" by (simp add: P_def Q_def R_def algebra_simps)
  have "\<bar>Q\<bar> = \<bar>D - d\<bar> * \<bar>\<rho>\<bar>" by (simp add: Q_def abs_mult)
  also have "\<dots> \<le> \<bar>D - d\<bar> * 1" using assms(4) by (intro mult_left_mono) simp_all
  finally have q: "\<bar>Q\<bar> \<le> d / 2 ^ 53" using assms(2,5) by simp
  have "\<bar>R\<bar> = \<bar>d\<bar> * \<bar>\<rho>\<bar>" by (simp add: R_def abs_mult)
  also have "\<dots> \<le> \<bar>d\<bar> * 1" using assms(4) by (intro mult_left_mono) simp_all
  finally have r: "\<bar>R\<bar> \<le> d" using assms(5) by simp
  have u: "d / 2 ^ 53 \<le> d" using assms(5) by simp
  have p: "\<bar>P\<bar> \<le> 2 * d" using pqr q r u by linarith
  then have "\<bar>P\<bar> / 2 ^ 53 \<le> 2 * d / 2 ^ 53" by (simp add: divide_right_mono)
  moreover have "pow2 (- 1075) \<le> d / 2 ^ 53"
  proof -
    have "(1::real) / 2 ^ 53 \<le> d / 2 ^ 53" using assms(5) by (intro divide_right_mono) simp_all
    then show ?thesis using pow2_tiny by linarith
  qed
  ultimately have m: "\<bar>M - P\<bar> \<le> 3 * d / 2 ^ 53" using assms(3) by (simp add: P_def)
  have "\<bar>n\<bar> / 2 ^ 53 \<le> d / 2 ^ 53" using assms(6,7) by (intro divide_right_mono) simp_all
  then have n: "\<bar>N - n\<bar> \<le> d / 2 ^ 53" using assms(1) by linarith
  have "(N - M) - (n - R) = (N - n) - (M - P) - Q" using pqr by simp
  then have "\<bar>(N - M) - (n - R)\<bar> \<le> 5 * d / 2 ^ 53" using n m q by linarith
  then show ?thesis by (simp add: R_def)
qed

lemma product_residual:
  assumes "in_range T n" "in_range T d" "1 \<le> d" "0 \<le> n" "n \<le> d" "bounded 1 r"
  shows "bounded (2 ^ 63) (dbl_of_int n)"
    and "bounded (2 ^ 63) (dmul (dbl_of_int d) r)"
    and "\<bar>(fin_val (dbl_of_int n) - fin_val (dmul (dbl_of_int d) r))
          - (of_int n - of_int d * fin_val r)\<bar> \<le> 5 * of_int d / 2 ^ 53"
proof -
  show bn: "bounded (2 ^ 63) (dbl_of_int n)" using assms(1) by (rule bounded_dbl_of_int)
  have bd: "bounded (2 ^ 63) (dbl_of_int d)" using assms(2) by (rule bounded_dbl_of_int)
  have "bounded (2 ^ 63 * 1) (dmul (dbl_of_int d) r)"
    using bd assms(6) by (rule bounded_dmul) simp
  then show "bounded (2 ^ 63) (dmul (dbl_of_int d) r)" by simp
  have "fin_val (dmul (dbl_of_int d) r) = rnd_val (fin_val (dbl_of_int d) * fin_val r)"
    using bd assms(6) by (rule fin_val_dmul) simp
  then have M: "fin_val (dmul (dbl_of_int d) r) = rnd_val (rnd_val (of_int d) * fin_val r)"
    by (simp add: fin_val_dbl_of_int [OF assms(2)])
  have r: "\<bar>fin_val r\<bar> \<le> 1" using assms(6) by (simp add: bounded_def)
  have "\<bar>(rnd_val (of_int n) - rnd_val (rnd_val (of_int d) * fin_val r))
          - (of_int n - of_int d * fin_val r)\<bar> \<le> 5 * of_int d / 2 ^ 53"
    using rnd_val_error_int [of n] rnd_val_error_int [of d]
      rnd_val_error [of "rnd_val (of_int d) * fin_val r"] r assms(3,4,5)
    by (intro residual_error) simp_all
  then show "\<bar>(fin_val (dbl_of_int n) - fin_val (dmul (dbl_of_int d) r))
          - (of_int n - of_int d * fin_val r)\<bar> \<le> 5 * of_int d / 2 ^ 53"
    by (simp add: M fin_val_dbl_of_int [OF assms(1)])
qed

lemma high_residual:
  assumes "in_range T n" "in_range T d" "1 \<le> d" "0 \<le> n" "n \<le> d" "bounded 1 r"
    and "is_double t"
    and "dlt (dsub (dbl_of_int n) (dmul (dbl_of_int d) r)) (Fin t)"
  shows "of_int n - of_int d * fin_val r < t + 5 * of_int d / 2 ^ 53"
proof -
  note p = product_residual [OF assms(1-6)]
  have "bounded (2 ^ 63 + 2 ^ 63) (dsub (dbl_of_int n) (dmul (dbl_of_int d) r))"
    using p(1,2) by (rule bounded_dsub) simp
  from dlt_bounded [OF this assms(8)]
  have "rnd_val (fin_val (dbl_of_int n) - fin_val (dmul (dbl_of_int d) r)) < t"
    using fin_val_dsub [OF p(1,2)] by simp
  then have "fin_val (dbl_of_int n) - fin_val (dmul (dbl_of_int d) r) < t"
    using assms(7) by (rule rnd_val_less_double)
  with p(3) show ?thesis by linarith
qed

lemma low_residual:
  assumes "in_range T n" "in_range T d" "1 \<le> d" "0 \<le> n" "n \<le> d" "bounded 1 r"
    and "is_double t"
    and "dlt (dsub (dmul (dbl_of_int d) r) (dbl_of_int n)) (Fin t)"
  shows "of_int d * fin_val r - of_int n < t + 5 * of_int d / 2 ^ 53"
proof -
  note p = product_residual [OF assms(1-6)]
  have "bounded (2 ^ 63 + 2 ^ 63) (dsub (dmul (dbl_of_int d) r) (dbl_of_int n))"
    using p(2,1) by (rule bounded_dsub) simp
  from dlt_bounded [OF this assms(8)]
  have "rnd_val (fin_val (dmul (dbl_of_int d) r) - fin_val (dbl_of_int n)) < t"
    using fin_val_dsub [OF p(2,1)] by simp
  then have "fin_val (dmul (dbl_of_int d) r) - fin_val (dbl_of_int n) < t"
    using assms(7) by (rule rnd_val_less_double)
  with p(3) show ?thesis by linarith
qed


section \<open>The error of \<^verbatim>\<open>toFloat\<close>\<close>

lemma rnd_val_int_ge_1:
  assumes "1 \<le> d"
  shows "1 \<le> rnd_val (of_int d)"
proof -
  have "(1::real) \<le> of_int d" using assms by simp
  moreover have "rnd_val 1 = 1" using is_double_1 by (simp add: is_double_def)
  ultimately show ?thesis by (rule rnd_val_ge)
qed

lemma rnd_val_abs_ge_1:
  assumes "n \<noteq> 0"
  shows "1 \<le> \<bar>rnd_val (of_int n)\<bar>"
proof (cases "0 < n")
  case True
  then have "1 \<le> rnd_val (of_int n)" by (intro rnd_val_int_ge_1) simp
  then show ?thesis by simp
next
  case False
  then have "1 \<le> - n" using assms by simp
  then have "1 \<le> rnd_val (of_int (- n))" by (rule rnd_val_int_ge_1)
  then have "1 \<le> - rnd_val (of_int n)" by (simp add: rnd_val_minus)
  then show ?thesis by simp
qed

text \<open>Three roundings, each with a relative error of at most \<open>2^-53\<close>, give a relative error of
  at most \<open>2^-50\<close>.\<close>

lemma quotient_error:
  fixes n d N D q :: real
  assumes N: "\<bar>N - n\<bar> \<le> \<bar>n\<bar> / 2 ^ 53" and D: "\<bar>D - d\<bar> \<le> d / 2 ^ 53"
    and q: "\<bar>q - N / D\<bar> \<le> \<bar>N / D\<bar> / 2 ^ 53" and d: "1 \<le> d"
  shows "\<bar>q - n / d\<bar> \<le> \<bar>n / d\<bar> / 2 ^ 50"
proof -
  define u :: real where "u = 1 / 2 ^ 53"
  define k where "k = \<bar>n\<bar> / d"
  have u: "0 < u" "u \<le> 1 / 4" by (simp_all add: u_def)
  have k: "0 \<le> k" using d by (simp add: k_def)
  have N': "\<bar>N - n\<bar> \<le> u * \<bar>n\<bar>" and D': "\<bar>D - d\<bar> \<le> u * d"
    using N D by (simp_all add: u_def)
  have Dlow: "(1 - u) * d \<le> D" using D' by (simp add: algebra_simps abs_le_iff)
  have ud: "u * d \<le> 1 / 4 * d" using u d by (intro mult_right_mono) simp_all
  have "(1 - u) * d = d - u * d" by (simp add: algebra_simps)
  then have hd: "d / 2 \<le> (1 - u) * d" using ud d by linarith
  have Dpos: "0 < D" using Dlow hd d by linarith
  define X where "X = (N - n) * d - n * (D - d)"
  have eq: "N / D - n / d = X / (D * d)"
    using Dpos d by (simp add: X_def field_simps)
  have X: "\<bar>X\<bar> \<le> 2 * u * \<bar>n\<bar> * d"
  proof -
    have "\<bar>(N - n) * d\<bar> \<le> (u * \<bar>n\<bar>) * d"
      using N' d by (simp add: abs_mult mult_right_mono)
    moreover have "\<bar>n * (D - d)\<bar> \<le> \<bar>n\<bar> * (u * d)"
      using D' by (simp add: abs_mult mult_left_mono)
    moreover have "\<bar>(N - n) * d - n * (D - d)\<bar> \<le> \<bar>(N - n) * d\<bar> + \<bar>n * (D - d)\<bar>"
      by (rule abs_triangle_ineq4)
    moreover have "2 * u * \<bar>n\<bar> * d = (u * \<bar>n\<bar>) * d + \<bar>n\<bar> * (u * d)" by simp
    ultimately show ?thesis unfolding X_def by linarith
  qed
  have pos: "0 < D * d" using Dpos d by simp
  have "\<bar>N / D - n / d\<bar> = \<bar>X\<bar> / (D * d)"
    unfolding eq using pos by (simp only: abs_divide abs_of_pos)
  also have "\<dots> \<le> (2 * u * \<bar>n\<bar> * d) / (D * d)"
    using X pos by (intro divide_right_mono) simp_all
  also have "\<dots> = 2 * u * \<bar>n\<bar> / D" using d by simp
  also have "\<dots> \<le> 2 * u * \<bar>n\<bar> / (d / 2)"
  proof -
    have "d / 2 \<le> D" using Dlow hd by linarith
    moreover have "0 \<le> 2 * u * \<bar>n\<bar>" using u by simp
    moreover have "0 < D * (d / 2)" using Dpos d by simp
    ultimately show ?thesis by (rule divide_left_mono)
  qed
  also have "\<dots> = 4 * u * k" using d by (simp add: k_def)
  finally have 1: "\<bar>N / D - n / d\<bar> \<le> 4 * u * k" .
  have "\<bar>n / d\<bar> = k" using d by (simp add: k_def)
  then have Q: "\<bar>N / D\<bar> \<le> k + 4 * u * k" using 1 by linarith
  have "\<bar>q - N / D\<bar> \<le> u * \<bar>N / D\<bar>" using q by (simp add: u_def)
  also have "\<dots> \<le> u * (k + 4 * u * k)" using Q u by (intro mult_left_mono) simp_all
  finally have 2: "\<bar>q - N / D\<bar> \<le> u * (k + 4 * u * k)" .
  define w where "w = u * k"
  have w: "0 \<le> w" using u k by (simp add: w_def)
  have "u * w \<le> 1 / 4 * w" using u w by (intro mult_right_mono) simp_all
  moreover have "u * (k + 4 * u * k) = w + 4 * (u * w)" by (simp add: w_def algebra_simps)
  moreover have "4 * u * k = 4 * w" by (simp add: w_def)
  ultimately have "\<bar>q - n / d\<bar> \<le> 8 * w" using 1 2 w by linarith
  moreover have "8 * w = \<bar>n / d\<bar> / 2 ^ 50" using d by (simp add: w_def u_def k_def)
  ultimately show ?thesis by simp
qed

lemma toFloat_error:
  assumes "in_range T n" "in_range T d" "1 \<le> d"
  shows "finite_d (toFloat \<lparr>numerator = n, denominator = d\<rparr>)"
    and "\<bar>fin_val (toFloat \<lparr>numerator = n, denominator = d\<rparr>) - of_int n / of_int d\<bar>
          \<le> \<bar>of_int n / of_int d\<bar> / 2 ^ 50"
proof -
  define N where "N = rnd_val (of_int n)"
  define D where "D = rnd_val (of_int d)"
  have bn: "bounded (2 ^ 63) (dbl_of_int n)" using assms(1) by (rule bounded_dbl_of_int)
  have bd: "bounded (2 ^ 63) (dbl_of_int d)" using assms(2) by (rule bounded_dbl_of_int)
  have D1: "1 \<le> D" unfolding D_def using assms(3) by (rule rnd_val_int_ge_1)
  have fd: "fin_val (dbl_of_int d) = D" by (simp add: D_def fin_val_dbl_of_int [OF assms(2)])
  have dd: "dbl_of_int d = Fin D"
    using bd fd D1 by (elim bounded_cases) simp_all
  have fn: "fin_val (dbl_of_int n) = N" by (simp add: N_def fin_val_dbl_of_int [OF assms(1)])
  have two: "is_double (2 ^ 63)" by (rule is_double_power2) simp
  note v = fin_val_ddiv [OF bn D1 two]
  show "finite_d (toFloat \<lparr>numerator = n, denominator = d\<rparr>)"
    using v(2) by (simp add: toFloat_def dd)
  have q: "fin_val (toFloat \<lparr>numerator = n, denominator = d\<rparr>) = rnd_val (N / D)"
    using v(1) by (simp add: toFloat_def dd fn)
  have Dle: "D \<le> 2 ^ 63"
    using bd by (simp add: dd)
  have e: "\<bar>rnd_val (N / D) - N / D\<bar> \<le> \<bar>N / D\<bar> / 2 ^ 53"
  proof (cases "n = 0")
    case True
    then show ?thesis by (simp add: N_def)
  next
    case False
    then have "1 \<le> \<bar>N\<bar>" unfolding N_def by (rule rnd_val_abs_ge_1)
    then have a: "1 / 2 ^ 63 \<le> \<bar>N\<bar> / D"
      using Dle D1 by (intro frac_le) simp_all
    have "pow2 (- 1022) \<le> 1 / 2 ^ 64" by (rule pow2_normal_le_1)
    also have "(1::real) / 2 ^ 64 \<le> 1 / 2 ^ 63" by simp
    also note a
    also have "\<bar>N\<bar> / D = \<bar>N / D\<bar>" using D1 by simp
    finally show ?thesis by (rule rnd_val_error_normal)
  qed
  have d1: "(1::real) \<le> of_int d" using assms(3) by simp
  have "\<bar>D - of_int d\<bar> \<le> of_int d / 2 ^ 53"
    using rnd_val_error_int [of d] assms(3) by (simp add: D_def)
  with rnd_val_error_int [of n, folded N_def] e d1
  have "\<bar>rnd_val (N / D) - of_int n / of_int d\<bar> \<le> \<bar>of_int n / of_int d\<bar> / 2 ^ 50"
    by (intro quotient_error)
  then show "\<bar>fin_val (toFloat \<lparr>numerator = n, denominator = d\<rparr>) - of_int n / of_int d\<bar>
          \<le> \<bar>of_int n / of_int d\<bar> / 2 ^ 50"
    by (simp add: q)
qed


section \<open>The bounds stay in the unit interval\<close>

lemma pass_unit:
  assumes "loop_body cfg T r (Fin p) b = Continue b'" "neighbours T b" "bounded 1 r" "0 < p"
    and u: "0 \<le> numerator (low b)" "numerator (low b) \<le> denominator (low b)"
      "0 \<le> numerator (high b)" "numerator (high b) \<le> denominator (high b)"
  shows "0 \<le> numerator (low b') \<and> numerator (low b') \<le> denominator (low b') \<and>
         0 \<le> numerator (high b') \<and> numerator (high b') \<le> denominator (high b')"
proof -
  from assms(1-4) obtain v1 v2 where
    x: "x1 r b = Fin v1" "x2 r b = Fin v2" and v: "0 \<le> v1" "0 \<le> v2"
    and s: "if v2 < v1 then step_x1 T \<lfloor>v1\<rfloor> b = Inr b' else step_x2 T \<lfloor>v2\<rfloor> b = Inr b'"
    by (rule positive_pass)
  show ?thesis
  proof (cases "v2 < v1")
    case True
    define n where "n = \<lfloor>v1\<rfloor>"
    from True s have st: "step_x1 T n b = Inr b'" by (simp add: n_def)
    have n0: "0 \<le> n" using v(1) by (simp add: n_def)
    note e = step_x1_neighbours(1) [OF st assms(2) n0]
    have "n * numerator (low b) \<le> n * denominator (low b)"
      using u(2) n0 by (rule mult_left_mono)
    moreover have "0 \<le> n * numerator (low b)" using n0 u(1) by simp
    ultimately show ?thesis using u unfolding e by simp
  next
    case False
    define n where "n = \<lfloor>v2\<rfloor>"
    from False s have st: "step_x2 T n b = Inr b'" by (simp add: n_def)
    have n0: "0 \<le> n" using v(2) by (simp add: n_def)
    note e = step_x2_neighbours(1) [OF st assms(2) n0]
    have "n * numerator (high b) \<le> n * denominator (high b)"
      using u(4) n0 by (rule mult_left_mono)
    moreover have "0 \<le> n * numerator (high b)" using n0 u(3) by simp
    ultimately show ?thesis using u unfolding e by simp
  qed
qed

lemma visits_unit:
  assumes "visits cfg T r (Fin p) b" "bounded 1 r" "0 < p"
  shows "0 \<le> numerator (low b) \<and> numerator (low b) \<le> denominator (low b) \<and>
         0 \<le> numerator (high b) \<and> numerator (high b) \<le> denominator (high b)"
  using assms
proof induction
  case start
  show ?case by (simp add: initial_def)
next
  case (pass b b')
  have nb: "neighbours T b" using pass.hyps(1) pass.prems by (rule visits_neighbours)
  from pass.IH [OF pass.prems] have
    "0 \<le> numerator (low b)" "numerator (low b) \<le> denominator (low b)"
    "0 \<le> numerator (high b)" "numerator (high b) \<le> denominator (high b)" by simp_all
  with pass.hyps(2) nb pass.prems show ?case by (rule pass_unit)
qed

section \<open>Where the loop stops\<close>

lemma loop_exit_aux:
  assumes "loop cfg T val Precision b = Some res"
  shows "visits cfg T val Precision b \<longrightarrow>
    (\<forall>why b'. res = Inr (why, b') \<longrightarrow>
      (\<exists>b0. visits cfg T val Precision b0 \<and> loop_body cfg T val Precision b0 = Break why b'))"
proof -
  let ?Q = "\<lambda>(cfg::platform) (T::int_type) (val::double) (Precision::double) b res.
    visits cfg T val Precision b \<longrightarrow>
    (\<forall>why b'. res = Inr (why, b') \<longrightarrow>
      (\<exists>b0. visits cfg T val Precision b0 \<and> loop_body cfg T val Precision b0 = Break why b'))"
  have "?Q cfg T val Precision b res"
  proof (rule loop.raw_induct [where P = ?Q, OF _ assms], goal_cases)
    case (1 loop' cfg T val Precision b res)
    show ?case
    proof (intro impI allI)
      fix why b'
      assume v: "visits cfg T val Precision b" and r: "res = Inr (why, b')"
      show "\<exists>b0. visits cfg T val Precision b0 \<and> loop_body cfg T val Precision b0 = Break why b'"
      proof (cases "loop_body cfg T val Precision b")
        case (Break why' b'')
        then have "res = Inr (why', b'')" using 1(2) by simp
        with r Break v show ?thesis by auto
      next
        case (Continue b'')
        then have "loop' cfg T val Precision b'' = Some res" using 1(2) by simp
        moreover have "visits cfg T val Precision b''" using v Continue by (rule visits.pass)
        ultimately show ?thesis using 1(1) r by blast
      next
        case (Abort e)
        then show ?thesis using 1(2) r by simp
      qed
    qed
  qed
  then show ?thesis .
qed

lemma loop_exit:
  assumes "loop cfg T val Precision initial = Some (Inr (why, b))"
  obtains b0 where "visits cfg T val Precision b0"
    "loop_body cfg T val Precision b0 = Break why b"
  using loop_exit_aux [OF assms] visits.start [of cfg T val Precision] by blast

section \<open>The distance between the remainder and the bound selected\<close>

lemma unit_fraction:
  fixes n d :: int
  assumes "0 \<le> n" "n \<le> d" "1 \<le> d"
  shows "0 \<le> (of_int n / of_int d :: real)" "(of_int n / of_int d :: real) \<le> 1"
  using assms by simp_all

lemma scaled_less:
  fixes a d t c \<rho> :: real
  assumes "a - d * \<rho> < t + c * d / 2 ^ 53" "1 \<le> d"
  shows "a / d - \<rho> < t / d + c / 2 ^ 53"
proof -
  have d: "0 < d" using assms(2) by simp
  have "(a - d * \<rho>) / d < (t + c * d / 2 ^ 53) / d"
    using assms(1) d by (rule divide_strict_right_mono)
  moreover have "(a - d * \<rho>) / d = a / d - \<rho>" using d by (simp add: diff_divide_distrib)
  moreover have "(t + c * d / 2 ^ 53) / d = t / d + c / 2 ^ 53"
    using d by (simp add: add_divide_distrib)
  ultimately show ?thesis by simp
qed

lemma scaled_less':
  fixes a d t c \<rho> :: real
  assumes "d * \<rho> - a < t + c * d / 2 ^ 53" "1 \<le> d"
  shows "\<rho> - a / d < t / d + c / 2 ^ 53"
proof -
  have d: "0 < d" using assms(2) by simp
  have "(d * \<rho> - a) / d < (t + c * d / 2 ^ 53) / d"
    using assms(1) d by (rule divide_strict_right_mono)
  moreover have "(d * \<rho> - a) / d = \<rho> - a / d" using d by (simp add: diff_divide_distrib)
  moreover have "(t + c * d / 2 ^ 53) / d = t / d + c / 2 ^ 53"
    using d by (simp add: add_divide_distrib)
  ultimately show ?thesis by simp
qed

lemma high_selected:
  assumes "in_range T n" "in_range T d" "1 \<le> d" "0 \<le> n" "n \<le> d" "bounded 1 r"
    and "is_double t" "0 < t"
    and "dlt (dsub (dbl_of_int n) (dmul (dbl_of_int d) r)) (Fin t)"
    and "dge (toFloat \<lparr>numerator = n, denominator = d\<rparr>) r"
  shows "\<bar>of_int n / of_int d - fin_val r\<bar> < t / of_int d + 1 / 2 ^ 50"
proof -
  define x :: real where "x = of_int n / of_int d"
  have d1: "(1::real) \<le> of_int d" using assms(3) by simp
  then have td: "0 < t / of_int d" using assms(8) by simp
  have x: "0 \<le> x" "x \<le> 1" unfolding x_def using assms(4,5,3) by (rule unit_fraction)+
  from high_residual [OF assms(1-7,9)] d1
  have up: "x - fin_val r < t / of_int d + 5 / 2 ^ 53"
    unfolding x_def by (rule scaled_less)
  note e = toFloat_error [OF assms(1-3)]
  have fr: "finite_d r" using assms(6) by (simp add: bounded_def)
  have "fin_val r \<le> fin_val (toFloat \<lparr>numerator = n, denominator = d\<rparr>)"
    using fr e(1) assms(10) unfolding dge_def by (rule dle_finite)
  moreover have "\<bar>x\<bar> / 2 ^ 50 \<le> 1 / 2 ^ 50" using x by (intro divide_right_mono) simp_all
  ultimately have "fin_val r \<le> x + 1 / 2 ^ 50" using e(2) unfolding x_def [symmetric] by linarith
  with up td show ?thesis unfolding x_def [symmetric] by (simp add: abs_less_iff)
qed

lemma low_selected:
  assumes "in_range T n" "in_range T d" "1 \<le> d" "0 \<le> n" "n \<le> d" "bounded 1 r"
    and "is_double t" "0 < t"
    and "dlt (dsub (dmul (dbl_of_int d) r) (dbl_of_int n)) (Fin t)"
    and "dle (toFloat \<lparr>numerator = n, denominator = d\<rparr>) r"
  shows "\<bar>of_int n / of_int d - fin_val r\<bar> < t / of_int d + 1 / 2 ^ 50"
proof -
  define x :: real where "x = of_int n / of_int d"
  have d1: "(1::real) \<le> of_int d" using assms(3) by simp
  then have td: "0 < t / of_int d" using assms(8) by simp
  have x: "0 \<le> x" "x \<le> 1" unfolding x_def using assms(4,5,3) by (rule unit_fraction)+
  from low_residual [OF assms(1-7,9)] d1
  have up: "fin_val r - x < t / of_int d + 5 / 2 ^ 53"
    unfolding x_def by (rule scaled_less')
  note e = toFloat_error [OF assms(1-3)]
  have fr: "finite_d r" using assms(6) by (simp add: bounded_def)
  have "fin_val (toFloat \<lparr>numerator = n, denominator = d\<rparr>) \<le> fin_val r"
    using e(1) fr assms(10) by (rule dle_finite)
  moreover have "\<bar>x\<bar> / 2 ^ 50 \<le> 1 / 2 ^ 50" using x by (intro divide_right_mono) simp_all
  ultimately have "x - 1 / 2 ^ 50 \<le> fin_val r" using e(2) unfolding x_def [symmetric] by linarith
  with up td show ?thesis unfolding x_def [symmetric] by (simp add: abs_less_iff)
qed


section \<open>The remainder is exact\<close>

lemma trunc_between:
  "0 \<le> v \<Longrightarrow> 0 \<le> (of_int (trunc v) :: real) \<and> of_int (trunc v) \<le> v"
  "v \<le> 0 \<Longrightarrow> (of_int (trunc v) :: real) \<le> 0 \<and> v \<le> of_int (trunc v)"
proof -
  show "0 \<le> v \<Longrightarrow> 0 \<le> (of_int (trunc v) :: real) \<and> of_int (trunc v) \<le> v"
    by (simp add: trunc_def)
  show "v \<le> 0 \<Longrightarrow> (of_int (trunc v) :: real) \<le> 0 \<and> v \<le> of_int (trunc v)"
    by (cases "v = 0") (simp_all add: trunc_def ceiling_le_iff)
qed

lemma frac_part_le: "\<bar>v - of_int (trunc v)\<bar> \<le> \<bar>v\<bar>"
  using trunc_between [of v] by (cases "0 \<le> v") auto

lemma is_double_frac_part:
  assumes "is_double v"
  shows "is_double (v - of_int (trunc v))"
proof (cases "2 ^ 52 \<le> \<bar>v\<bar> \<or> v = 0")
  case True
  then show ?thesis
  proof
    assume "2 ^ 52 \<le> \<bar>v\<bar>"
    then have "of_int (trunc v) = v" using assms by (intro double_large_int)
    then show ?thesis by simp
  next
    assume "v = 0"
    then show ?thesis by (simp add: trunc_def)
  qed
next
  case False
  then have v: "0 < \<bar>v\<bar>" "\<bar>v\<bar> < pow2 (51 + 1)" by (simp_all add: pow2_nat)
  define e where "e = exponent v - 52"
  define m where "m = round_even (v / quantum v)"
  have "ilog2 \<bar>v\<bar> \<le> 51" using v by (rule ilog2_le)
  then have e: "- 1074 \<le> e" "e < 0" using exponent_ge [of v] by (simp_all add: e_def exponent_def)
  have vm: "v = of_int m * pow2 e"
    using assms by (simp add: is_double_def rnd_val_def quantum_def m_def e_def)
  define k where "k = nat (- e)"
  have one: "2 ^ k * pow2 e = 1" using e by (simp add: pow2_def k_def)
  define m' where "m' = m - trunc v * 2 ^ k"
  have "of_int m' * pow2 e = of_int m * pow2 e - of_int (trunc v) * (2 ^ k * pow2 e)"
    by (simp add: m'_def algebra_simps)
  then have vm': "v - of_int (trunc v) = of_int m' * pow2 e" using vm one by simp
  have "\<bar>of_int m' * pow2 e\<bar> \<le> \<bar>of_int m * pow2 e\<bar>"
    using frac_part_le [of v] vm vm' by simp
  then have "\<bar>of_int m' :: real\<bar> * pow2 e \<le> \<bar>of_int m\<bar> * pow2 e"
    using pow2_pos [of e] by (simp add: abs_mult)
  then have "\<bar>of_int m' :: real\<bar> \<le> \<bar>of_int m\<bar>"
    using pow2_pos [of e] by simp
  then have "\<bar>m'\<bar> \<le> \<bar>m\<bar>" by (metis of_int_abs of_int_le_iff)
  then have "\<bar>m'\<bar> \<le> 2 ^ 53" using mantissa_le [of v] by (simp add: m_def)
  then have "is_double (of_int m' * pow2 e)" using e by (intro is_double_scaled) simp_all
  then show ?thesis by (simp add: vm')
qed

lemma remainder_exact:
  assumes "is_double v" "in_range T (trunc v)"
  shows "fin_val (remainder cfg T (Fin v)) = v - of_int (trunc v)"
proof -
  define t where "t = trunc v"
  have i: "intPart cfg T (Fin v) = t"
    using assms(2) by (simp add: intPart_def to_int_type_in_range t_def)
  have d: "dbl_of_int t = Fin (of_int t)" unfolding t_def using assms(1) by (rule dbl_of_int_trunc)
  have r: "remainder cfg T (Fin v) = dadd (Fin v) (dneg (Fin (of_int t)))"
    by (simp add: remainder_def i d dsub_def)
  have f: "is_double (v - of_int t)" unfolding t_def using assms(1) by (rule is_double_frac_part)
  show ?thesis
  proof (cases "t = 0")
    case True
    then show ?thesis using assms(1) by (simp add: r dadd_def rnd_exact t_def [symmetric])
  next
    case False
    then show ?thesis using f by (simp add: r dadd_def rnd_exact t_def [symmetric])
  qed
qed

section \<open>The distance between the value and the fraction returned\<close>

lemma converged_bound:
  assumes "visits cfg T r (Fin t) b0" "bounded 1 r" "0 < t" "is_double t" "assertions cfg"
    and "loop_body cfg T r (Fin t) b0 = Break why b" "why \<noteq> OverflowStopped"
  shows "in_range T (numerator (high b)) \<and> in_range T (denominator (high b)) \<and>
         1 \<le> denominator (high b) \<and>
         \<bar>frac_val (high b) - fin_val r\<bar> < t / of_int (denominator (high b)) + 1 / 2 ^ 50"
proof -
  have nb: "neighbours T b0" using assms(1-3) by (rule visits_neighbours)
  note u = visits_unit [OF assms(1-3)]
  have a: "dle (toFloat (low b0)) r" "dge (toFloat (high b0)) r"
    using assms(5,6) by (auto simp: loop_body_def asserts_hold_def split: if_splits)
  have lo: "low b0 = \<lparr>numerator = numerator (low b0), denominator = denominator (low b0)\<rparr>"
    and hi: "high b0 = \<lparr>numerator = numerator (high b0), denominator = denominator (high b0)\<rparr>"
    by simp_all
  show ?thesis
  proof (cases "dlt (testHigh r b0) (Fin t)")
    case True
    then have b: "b = b0" using assms(6) by (auto simp: loop_body_def split: if_splits)
    have "\<bar>of_int (numerator (high b0)) / of_int (denominator (high b0)) - fin_val r\<bar>
        < t / of_int (denominator (high b0)) + 1 / 2 ^ 50"
      using nb u assms(2,4,3) True a(2)
      by (intro high_selected [of T]) (simp_all add: neighbours_def testHigh_def hi [symmetric])
    then show ?thesis using nb by (simp add: b frac_val_def neighbours_def)
  next
    case False
    then have tl: "dlt (testLow r b0) (Fin t)" and b: "b = b0\<lparr>high := low b0\<rparr>"
      using assms(6,7) by (auto simp: loop_body_def after_step_def split: if_splits sum.splits)
    have "\<bar>of_int (numerator (low b0)) / of_int (denominator (low b0)) - fin_val r\<bar>
        < t / of_int (denominator (low b0)) + 1 / 2 ^ 50"
      using nb u assms(2,4,3) tl a(1)
      by (intro low_selected [of T]) (simp_all add: neighbours_def testLow_def lo [symmetric])
    then show ?thesis using nb by (simp add: b frac_val_def neighbours_def)
  qed
qed

text \<open>
  Claim C1, as amended. Take a finite value whose integer part fits in \<^verbatim>\<open>int_type\<close>, a
  positive precision \<open>t\<close>, and a build with the assertions compiled in. If the search ends by
  one of the two precision tests and the fraction \<open>R\<close> is returned, then \<open>R\<close>, as an exact
  rational, is within \<open>t / denominator + 2^-50\<close> of the value, and \<^verbatim>\<open>toFloat(R)\<close> is within
  \<open>t + 2^-50 + |R| * 2^-50\<close> of it: the tests are made on residuals computed in floating
  point, and \<^verbatim>\<open>toFloat\<close> rounds three times, so the distance is bounded by the precision plus
  a rounding term that grows with the value, not by the precision alone.
\<close>

theorem round_trip_bound:
  assumes "is_double v" and "in_range T (trunc v)" and "is_double t" and "0 < t"
    and "assertions cfg"
    and "search cfg T (Fin v) (Fin t) = Some (Inr (why, b))" and "why \<noteq> OverflowStopped"
    and "toFract cfg T (Fin v) (Fin t) = Some (Inr R)"
  shows "\<bar>frac_val R - v\<bar> < t / of_int (denominator R) + 1 / 2 ^ 50 \<and>
         \<bar>fin_val (toFloat R) - v\<bar> < t + 1 / 2 ^ 50 + \<bar>frac_val R\<bar> / 2 ^ 50"
proof -
  define r where "r = remainder cfg T (Fin v)"
  define N where "N = trunc v"
  have i: "intPart cfg T (Fin v) = N"
    using assms(2) by (simp add: intPart_def to_int_type_in_range N_def)
  have br: "bounded 1 r" using remainder_small [OF assms(1,2), of cfg] by (simp add: bounded_def r_def)
  have ex: "fin_val r = v - of_int N" unfolding r_def N_def using assms(1,2) by (rule remainder_exact)
  have "\<not> dgt (dabs r) (Fin 1)"
    using br by (intro range_check_passes) (simp_all add: bounded_def)
  then have l: "loop cfg T r (Fin t) initial = Some (Inr (why, b))"
    using assms(6) by (simp add: search_def r_def)
  then obtain b0 where b0: "visits cfg T r (Fin t) b0" "loop_body cfg T r (Fin t) b0 = Break why b"
    by (rule loop_exit)
  from converged_bound [OF b0(1) br assms(4,3,5) b0(2) assms(7)]
  have h: "in_range T (numerator (high b))" "in_range T (denominator (high b))"
    "1 \<le> denominator (high b)"
    "\<bar>frac_val (high b) - fin_val r\<bar> < t / of_int (denominator (high b)) + 1 / 2 ^ 50"
    by simp_all
  define hn hd where "hn = numerator (high b)" and "hd = denominator (high b)"
  have "plus_int T (high b) N = Inr R"
    using assms(8) assms(6) by (simp add: toFract_def i)
  then have R: "R = \<lparr>numerator = N * hd + hn, denominator = hd\<rparr>" and m: "in_range T (N * hd + hn)"
    by (auto simp: plus_int_def and_then_Inr mul_add_Inr hn_def hd_def)
  have hd: "(1::real) \<le> of_int hd" using h(3) by (simp add: hd_def)
  have fR: "frac_val R = of_int N + frac_val (high b)"
    using hd by (simp add: R frac_val_def hn_def hd_def field_simps)
  have dR: "denominator R = denominator (high b)" by (simp add: R hd_def)
  have eq: "frac_val R - v = frac_val (high b) - fin_val r" using fR ex by simp
  have 1: "\<bar>frac_val R - v\<bar> < t / of_int (denominator R) + 1 / 2 ^ 50"
    unfolding eq dR using h(4) .
  have "t / of_int hd \<le> t / 1" using hd assms(4) by (intro divide_left_mono) simp_all
  then have t: "t / of_int (denominator R) \<le> t" by (simp add: dR hd_def)
  have "\<bar>fin_val (toFloat \<lparr>numerator = N * hd + hn, denominator = hd\<rparr>)
        - of_int (N * hd + hn) / of_int hd\<bar> \<le> \<bar>of_int (N * hd + hn) / of_int hd\<bar> / 2 ^ 50"
    using m h(2,3) unfolding hd_def by (rule toFloat_error(2))
  then have 2: "\<bar>fin_val (toFloat R) - frac_val R\<bar> \<le> \<bar>frac_val R\<bar> / 2 ^ 50"
    by (simp add: R frac_val_def)
  from 1 2 t have "\<bar>fin_val (toFloat R) - v\<bar> < t + 1 / 2 ^ 50 + \<bar>frac_val R\<bar> / 2 ^ 50"
    by linarith
  with 1 show ?thesis by simp
qed


theorem round_trip_bound_witness:
  "search \<lparr>assertions = True, out_of_range = Indefinite\<rparr> Int64
     (Fin (6004799503160661 / 18014398509481984)) (Fin (1 / 4503599627370496))
     = Some (Inr (HighConverged,
         \<lparr>low = \<lparr>numerator = 1, denominator = 4\<rparr>, high = \<lparr>numerator = 1, denominator = 3\<rparr>\<rparr>)) \<and>
   toFract \<lparr>assertions = True, out_of_range = Indefinite\<rparr> Int64
     (Fin (6004799503160661 / 18014398509481984)) (Fin (1 / 4503599627370496))
     = Some (Inr \<lparr>numerator = 1, denominator = 3\<rparr>) \<and>
   \<bar>frac_val \<lparr>numerator = 1, denominator = 3\<rparr> - 6004799503160661 / 18014398509481984\<bar>
     < 1 / 4503599627370496 / 3 + 1 / 2 ^ 50 \<and>
   \<bar>fin_val (toFloat \<lparr>numerator = 1, denominator = 3\<rparr>) - 6004799503160661 / 18014398509481984\<bar>
     < 1 / 4503599627370496 + 1 / 2 ^ 50 + \<bar>frac_val \<lparr>numerator = 1, denominator = 3\<rparr>\<bar> / 2 ^ 50"
proof -
  let ?cfg = "\<lparr>assertions = True, out_of_range = Indefinite\<rparr>"
  let ?v = "6004799503160661 / 18014398509481984 :: real"
  let ?t = "1 / 4503599627370496 :: real"
  let ?b1 = "\<lparr>low = \<lparr>numerator = 1, denominator = 4\<rparr>, high = \<lparr>numerator = 1, denominator = 3\<rparr>\<rparr>"
  have dv: "is_double ?v" by (simp add: is_double_def double_eval)
  have dt: "is_double ?t" by (simp add: is_double_def double_eval)
  have tr: "trunc ?v = 0" by (simp add: trunc_def)
  have ir: "in_range Int64 (trunc ?v)" by (simp add: tr in_range_def MaxValue_def MinValue_def)
  have i: "intPart ?cfg Int64 (Fin ?v) = 0"
    by (simp add: intPart_def to_int_type_def tr in_range_def MaxValue_def MinValue_def)
  have r: "remainder ?cfg Int64 (Fin ?v) = Fin ?v"
    by (simp add: remainder_def i double_eval)
  have p1: "loop_body ?cfg Int64 (Fin ?v) (Fin ?t) initial = Continue ?b1"
    by (simp add: body_eval int_eval double_eval)
  have p2: "loop_body ?cfg Int64 (Fin ?v) (Fin ?t) ?b1 = Break HighConverged ?b1"
    by (simp add: body_eval int_eval double_eval)
  have s: "search ?cfg Int64 (Fin ?v) (Fin ?t) = Some (Inr (HighConverged, ?b1))"
    using loop_Continue [OF p1] loop_Break [OF p2] by (simp add: search_def r dgt_def dlt_def)
  have f: "toFract ?cfg Int64 (Fin ?v) (Fin ?t) = Some (Inr \<lparr>numerator = 1, denominator = 3\<rparr>)"
    by (simp add: toFract_def s i int_eval)
  have a: "assertions ?cfg" by simp
  have p: "0 < ?t" by simp
  have w: "HighConverged \<noteq> OverflowStopped" by simp
  from round_trip_bound [OF dv ir dt p a s w f] s f show ?thesis by simp
qed


section \<open>The overflow guard\<close>

subsection \<open>The estimate is not below the new denominator\<close>











subsection \<open>An update whose largest denominator fits is computed without overflow\<close>




subsection \<open>A pass that the check lets through\<close>








end
